theory Spec2Isabelle
  imports Main
begin

section \<open>JavaScript values used by the tab manager\<close>

text \<open>
  A JavaScript string is falsy exactly when it is empty, and \<open>null\<close> is falsy. Identifiers
  of type \<open>string | null\<close> are \<open>string option\<close>; a host field that is absent
  (\<open>undefined\<close>) is represented by the empty string, which the truthiness tests of the
  source treat in the same way.
\<close>

definition truthy :: "string \<Rightarrow> bool" where
  "truthy s = (s \<noteq> [])"

definition truthyId :: "string option \<Rightarrow> bool" where
  "truthyId p = (case p of None \<Rightarrow> False | Some s \<Rightarrow> truthy s)"

text \<open>\<open>a || b\<close> on strings.\<close>

definition orElse :: "string \<Rightarrow> string \<Rightarrow> string" where
  "orElse a b = (if truthy a then a else b)"

text \<open>
  A string is the list of the bytes of its UTF-8 encoding. \<open>s.trim() !== ""\<close> holds when
  \<open>s\<close> has a code point that \<open>trim\<close> does not strip. \<open>trim\<close> strips the WhiteSpace and
  LineTerminator code points of ECMAScript: U+0009 to U+000D and U+0020 (one byte), U+00A0
  (the bytes C2 A0), and, in three bytes, U+1680 (E1 9A 80), U+2000 to U+200A (E2 80 80 to
  E2 80 8A), U+2028 and U+2029 (E2 80 A8, E2 80 A9), U+202F (E2 80 AF), U+205F (E2 81 9F),
  U+3000 (E3 80 80) and U+FEFF (EF BB BF).
\<close>

definition isSpace :: "char \<Rightarrow> bool" where
  "isSpace c = (c \<in> set [CHR 0x09, CHR 0x0A, CHR 0x0B, CHR 0x0C, CHR 0x0D, CHR 0x20])"

definition isSpace2 :: "char \<Rightarrow> char \<Rightarrow> bool" where
  "isSpace2 c d = (c = CHR 0xC2 \<and> d = CHR 0xA0)"

definition isSpace3 :: "char \<Rightarrow> char \<Rightarrow> char \<Rightarrow> bool" where
  "isSpace3 c d e =
     ((c = CHR 0xE1 \<and> d = CHR 0x9A \<and> e = CHR 0x80)
      \<or> (c = CHR 0xE2 \<and> d = CHR 0x80
          \<and> e \<in> set [CHR 0x80, CHR 0x81, CHR 0x82, CHR 0x83, CHR 0x84, CHR 0x85, CHR 0x86,
                       CHR 0x87, CHR 0x88, CHR 0x89, CHR 0x8A, CHR 0xA8, CHR 0xA9, CHR 0xAF])
      \<or> (c = CHR 0xE2 \<and> d = CHR 0x81 \<and> e = CHR 0x9F)
      \<or> (c = CHR 0xE3 \<and> d = CHR 0x80 \<and> e = CHR 0x80)
      \<or> (c = CHR 0xEF \<and> d = CHR 0xBB \<and> e = CHR 0xBF))"

text \<open>\<open>s.trim() === ""\<close>: every code point of \<open>s\<close> is one that \<open>trim\<close> strips.\<close>

fun blank :: "string \<Rightarrow> bool" where
  "blank [] = True"
| "blank (c # r) =
     (if isSpace c then blank r
      else
        (case r of
           [] \<Rightarrow> False
         | d # r2 \<Rightarrow>
             if isSpace2 c d then blank r2
             else (case r2 of [] \<Rightarrow> False | e # r3 \<Rightarrow> isSpace3 c d e \<and> blank r3)))"

subsection \<open>Map and Set\<close>

text \<open>
  A JavaScript \<open>Map\<close> iterates in insertion order: it is an association list with one
  entry per key. \<open>get\<close> is \<open>map_of\<close>; \<open>set\<close> on a present key keeps the position of
  the entry, on an absent key appends. \<open>mapModify\<close> is the assignment to a field of the
  object stored under a key (the objects of the store are reached through their key only).
  A \<open>Set\<close> is the list of its elements in insertion order.
\<close>

definition mapHas :: "('k \<times> 'v) list \<Rightarrow> 'k \<Rightarrow> bool" where
  "mapHas m k = (k \<in> set (map fst m))"

definition mapSet :: "('k \<times> 'v) list \<Rightarrow> 'k \<Rightarrow> 'v \<Rightarrow> ('k \<times> 'v) list" where
  "mapSet m k v =
     (if mapHas m k then map (\<lambda>e. if fst e = k then (k, v) else e) m else m @ [(k, v)])"

definition mapDelete :: "('k \<times> 'v) list \<Rightarrow> 'k \<Rightarrow> ('k \<times> 'v) list" where
  "mapDelete m k = filter (\<lambda>e. fst e \<noteq> k) m"

definition mapModify :: "('k \<times> 'v) list \<Rightarrow> 'k \<Rightarrow> ('v \<Rightarrow> 'v) \<Rightarrow> ('k \<times> 'v) list" where
  "mapModify m k f = map (\<lambda>e. if fst e = k then (fst e, f (snd e)) else e) m"

definition setAdd :: "'a list \<Rightarrow> 'a \<Rightarrow> 'a list" where
  "setAdd xs x = (if x \<in> set xs then xs else xs @ [x])"

definition setDelete :: "'a list \<Rightarrow> 'a \<Rightarrow> 'a list" where
  "setDelete xs x = removeAll x xs"

section \<open>Data model (addon.ts: TabNode, TreeStructure)\<close>

datatype NodeType = Tab | Group

record TabNode =
  id_n :: string
  parentId :: "string option"
  childIds :: "string list"
  level :: nat
  collapsed :: bool
  title :: string
  type :: string
  nodeType :: NodeType
  selected :: bool

type_synonym Store = "(string \<times> TabNode) list"

text \<open>
  The state of \<open>TreeTabManager\<close>: the tabs map, \<open>structure.roots\<close>,
  \<open>structure.collapsed\<close> and the static \<open>lastActiveTabId\<close>.
\<close>

record TreeState =
  tabs :: Store
  roots :: "string list"
  collapsedSet :: "string list"
  lastActiveTabId :: "string option"

definition emptyState :: TreeState where
  "emptyState = \<lparr>tabs = [], roots = [], collapsedSet = [], lastActiveTabId = None\<rparr>"

text \<open>The preferences read through \<open>getPref\<close>; \<open>None\<close> is an unset preference.\<close>

record Prefs =
  collapseOnClose :: "bool option"
  autoCollapse :: "bool option"

text \<open>A tab as the host reports it (\<open>Zotero_Tabs._tabs\<close>).\<close>

record ZTabData =
  zd_itemID :: nat
  zd_title :: string

record ZTab =
  zt_id :: string
  zt_title :: string
  zt_type :: string
  zt_data :: "ZTabData option"

section \<open>Titles of host tabs\<close>

text \<open>
  \<open>getTabTitle\<close>. The parameter \<open>items\<close> stands for
  \<open>Zotero.Items.get(itemID).getField("title")\<close>: \<open>None\<close> when the item is missing or the
  lookup throws.
\<close>

definition getTabTitle :: "(nat \<Rightarrow> string option) \<Rightarrow> ZTab \<Rightarrow> string" where
  "getTabTitle items zt =
     (if truthy (zt_title zt) \<and> \<not> blank (zt_title zt) then zt_title zt
      else
        (let fallback = orElse (zt_type zt) ''Tab'' in
         if zt_type zt = ''reader'' then
           (case zt_data zt of
              None \<Rightarrow> fallback
            | Some d \<Rightarrow>
                (let fromData =
                       (if truthy (zd_title d) \<and> \<not> blank (zd_title d) then zd_title d
                        else fallback)
                 in if zd_itemID d \<noteq> 0 then
                      (case items (zd_itemID d) of
                         None \<Rightarrow> fromData
                       | Some itemTitle \<Rightarrow>
                           if truthy itemTitle \<and> \<not> blank itemTitle then itemTitle
                           else fromData)
                    else fromData))
         else fallback))"

section \<open>Levels\<close>

definition levelOf :: "Store \<Rightarrow> string \<Rightarrow> nat" where
  "levelOf t k = (case map_of t k of None \<Rightarrow> 0 | Some n \<Rightarrow> level n)"

text \<open>
  \<open>updateChildLevels\<close> recurses through \<open>childIds\<close> and does not return on a cyclic
  store (the JavaScript stack overflows). The first argument bounds the depth of the
  recursion; \<open>None\<close> is a call that did not return within it.
\<close>

fun updateChildLevels :: "nat \<Rightarrow> Store \<Rightarrow> string \<Rightarrow> Store option"
  and updateChildLevels_for :: "nat \<Rightarrow> Store \<Rightarrow> string \<Rightarrow> string list \<Rightarrow> Store option"
where
  "updateChildLevels 0 t pId = None"
| "updateChildLevels (Suc f) t pId =
     (case map_of t pId of
        None \<Rightarrow> Some t
      | Some parent \<Rightarrow> updateChildLevels_for f t pId (childIds parent))"
| "updateChildLevels_for f t pId [] = Some t"
| "updateChildLevels_for f t pId (childId # rest) =
     (case map_of t childId of
        None \<Rightarrow> updateChildLevels_for f t pId rest
      | Some child \<Rightarrow>
          (case updateChildLevels f
                  (mapModify t childId (\<lambda>c. c\<lparr>level := levelOf t pId + 1\<rparr>)) childId of
             None \<Rightarrow> None
           | Some t' \<Rightarrow> updateChildLevels_for f t' pId rest))"

fun recalculateLevels_for :: "nat \<Rightarrow> Store \<Rightarrow> string list \<Rightarrow> Store option" where
  "recalculateLevels_for f t [] = Some t"
| "recalculateLevels_for f t (rootId # rest) =
     (case map_of t rootId of
        None \<Rightarrow> recalculateLevels_for f t rest
      | Some root \<Rightarrow>
          (case updateChildLevels f (mapModify t rootId (\<lambda>r. r\<lparr>level := 0\<rparr>)) rootId of
             None \<Rightarrow> None
           | Some t' \<Rightarrow> recalculateLevels_for f t' rest))"

definition recalculateLevels :: "nat \<Rightarrow> TreeState \<Rightarrow> TreeState option" where
  "recalculateLevels f s =
     (case recalculateLevels_for f (tabs s) (roots s) of
        None \<Rightarrow> None
      | Some t \<Rightarrow> Some (s\<lparr>tabs := t\<rparr>))"

section \<open>Creating nodes\<close>

definition idStr :: "string option \<Rightarrow> string" where
  "idStr p = (case p of None \<Rightarrow> [] | Some x \<Rightarrow> x)"

definition newNode :: "string \<Rightarrow> string option \<Rightarrow> string \<Rightarrow> string \<Rightarrow> NodeType \<Rightarrow> TabNode" where
  "newNode i p ttl ty nt =
     \<lparr>id_n = i, parentId = p, childIds = [], level = 0, collapsed = False,
      title = ttl, type = ty, nodeType = nt, selected = False\<rparr>"

text \<open>
  The common body of \<open>addTab\<close> and \<open>createGroup\<close>: a live parent receives the new id at
  the end of its \<open>childIds\<close>, otherwise the node becomes the last root.
\<close>

definition insertNode :: "TreeState \<Rightarrow> TabNode \<Rightarrow> TreeState" where
  "insertNode s node =
     (if truthyId (parentId node) \<and> mapHas (tabs s) (idStr (parentId node)) then
        (let pId = idStr (parentId node);
             t1 = mapModify (tabs s) pId (\<lambda>p. p\<lparr>childIds := childIds p @ [id_n node]\<rparr>)
         in s\<lparr>tabs := mapSet t1 (id_n node) (node\<lparr>level := levelOf t1 pId + 1\<rparr>)\<rparr>)
      else
        s\<lparr>tabs := mapSet (tabs s) (id_n node) (node\<lparr>parentId := None\<rparr>),
          roots := roots s @ [id_n node]\<rparr>)"

definition addTab :: "TreeState \<Rightarrow> string \<Rightarrow> string \<Rightarrow> string \<Rightarrow> string option \<Rightarrow> TreeState" where
  "addTab s i ttl ty p = insertNode s (newNode i p ttl ty Tab)"

text \<open>
  \<open>createGroup\<close> builds its id from the clock and a random number; the id is a parameter.
\<close>

definition createGroup :: "TreeState \<Rightarrow> string \<Rightarrow> string \<Rightarrow> string option \<Rightarrow> TreeState" where
  "createGroup s i ttl p = insertNode s (newNode i p ttl ''group'' Group)"

section \<open>Removing nodes\<close>

text \<open>
  The loop of \<open>removeNodeFromTree\<close> over the children of the removed node. When the node
  is its own parent the loop appends to the array it iterates and never ends.
\<close>

fun promote_for :: "nat \<Rightarrow> string \<Rightarrow> TabNode \<Rightarrow> string list \<Rightarrow> TreeState \<Rightarrow> TreeState option" where
  "promote_for f i node [] s = Some s"
| "promote_for f i node (childId # rest) s =
     (case map_of (tabs s) childId of
        None \<Rightarrow> promote_for f i node rest s
      | Some child \<Rightarrow>
          (case updateChildLevels f
                  (mapModify (tabs s) childId
                     (\<lambda>c. c\<lparr>parentId := parentId node, level := level node\<rparr>)) childId of
             None \<Rightarrow> None
           | Some t' \<Rightarrow>
               if truthyId (parentId node) then
                 (if idStr (parentId node) = i then None
                  else promote_for f i node rest
                         (s\<lparr>tabs := mapModify t' (idStr (parentId node))
                                      (\<lambda>g. g\<lparr>childIds := childIds g @ [childId]\<rparr>)\<rparr>))
               else promote_for f i node rest
                      (s\<lparr>tabs := t',
                         roots := (if childId \<in> set (roots s) then roots s
                                   else roots s @ [childId])\<rparr>)))"

definition removeNodeFromTree :: "nat \<Rightarrow> TreeState \<Rightarrow> string \<Rightarrow> bool \<Rightarrow> TreeState option" where
  "removeNodeFromTree f s i promoteChildren =
     (case map_of (tabs s) i of
        None \<Rightarrow> Some s
      | Some node \<Rightarrow>
          (case (if promoteChildren then promote_for f i node (childIds node) s else Some s) of
             None \<Rightarrow> None
           | Some s1 \<Rightarrow>
               (let s2 =
                      (if truthyId (parentId node) then
                         s1\<lparr>tabs := mapModify (tabs s1) (idStr (parentId node))
                                       (\<lambda>p. p\<lparr>childIds := remove1 i (childIds p)\<rparr>)\<rparr>
                       else s1\<lparr>roots := remove1 i (roots s1)\<rparr>)
                in Some (s2\<lparr>collapsedSet := setDelete (collapsedSet s2) i,
                            tabs := mapDelete (tabs s2) i\<rparr>))))"

definition removeTabFromTree :: "nat \<Rightarrow> Prefs \<Rightarrow> TreeState \<Rightarrow> string \<Rightarrow> TreeState option" where
  "removeTabFromTree f prefs s i =
     removeNodeFromTree f s i (case collapseOnClose prefs of None \<Rightarrow> True | Some b \<Rightarrow> b)"

definition removeGroup :: "nat \<Rightarrow> TreeState \<Rightarrow> string \<Rightarrow> TreeState option" where
  "removeGroup f s i = removeNodeFromTree f s i True"

section \<open>Descendants and reparenting\<close>

fun getDescendants :: "nat \<Rightarrow> Store \<Rightarrow> string \<Rightarrow> string list option"
  and getDescendants_for :: "nat \<Rightarrow> Store \<Rightarrow> string list \<Rightarrow> string list \<Rightarrow> string list option"
where
  "getDescendants 0 t i = None"
| "getDescendants (Suc f) t i =
     (case map_of t i of
        None \<Rightarrow> Some []
      | Some node \<Rightarrow> getDescendants_for f t (childIds node) [])"
| "getDescendants_for f t [] result = Some result"
| "getDescendants_for f t (childId # rest) result =
     (case getDescendants f t childId of
        None \<Rightarrow> None
      | Some ds \<Rightarrow> getDescendants_for f t rest (result @ [childId] @ ds))"

text \<open>
  \<open>attachTabTo\<close> after its guards: detach from the old place, set the parent, attach to
  the new place. The levels below the tab are recomputed afterwards.
\<close>

definition relink :: "TreeState \<Rightarrow> string \<Rightarrow> TabNode \<Rightarrow> string option \<Rightarrow> TreeState" where
  "relink s tabId tab newParentId =
     (let s1 =
            (if truthyId (parentId tab) then
               s\<lparr>tabs := mapModify (tabs s) (idStr (parentId tab))
                            (\<lambda>p. p\<lparr>childIds := remove1 tabId (childIds p)\<rparr>)\<rparr>
             else s\<lparr>roots := remove1 tabId (roots s)\<rparr>);
          s2 = s1\<lparr>tabs := mapModify (tabs s1) tabId (\<lambda>n. n\<lparr>parentId := newParentId\<rparr>)\<rparr>
      in if truthyId newParentId then
           (if mapHas (tabs s2) (idStr newParentId) then
              (let t3 = mapModify (tabs s2) (idStr newParentId)
                          (\<lambda>p. p\<lparr>childIds := childIds p @ [tabId]\<rparr>)
               in s2\<lparr>tabs := mapModify t3 tabId
                                (\<lambda>n. n\<lparr>level := levelOf t3 (idStr newParentId) + 1\<rparr>)\<rparr>)
            else s2)
         else s2\<lparr>roots := roots s2 @ [tabId],
                 tabs := mapModify (tabs s2) tabId (\<lambda>n. n\<lparr>level := 0\<rparr>)\<rparr>)"

definition attachTabTo :: "nat \<Rightarrow> TreeState \<Rightarrow> string \<Rightarrow> string option \<Rightarrow> TreeState option" where
  "attachTabTo f s tabId newParentId =
     (case map_of (tabs s) tabId of
        None \<Rightarrow> Some s
      | Some tab \<Rightarrow>
          (case (if truthyId newParentId then getDescendants f (tabs s) tabId else Some []) of
             None \<Rightarrow> None
           | Some descendants \<Rightarrow>
               if truthyId newParentId \<and> idStr newParentId \<in> set descendants then Some s
               else
                 (let s3 = relink s tabId tab newParentId in
                  case updateChildLevels f (tabs s3) tabId of
                    None \<Rightarrow> None
                  | Some t' \<Rightarrow> Some (s3\<lparr>tabs := t'\<rparr>))))"

definition makeRootTab :: "nat \<Rightarrow> TreeState \<Rightarrow> string \<Rightarrow> TreeState option" where
  "makeRootTab f s tabId = attachTabTo f s tabId None"

section \<open>Collapsing\<close>

definition collapseNode :: "TreeState \<Rightarrow> string \<Rightarrow> TreeState" where
  "collapseNode s i =
     s\<lparr>tabs := mapModify (tabs s) i (\<lambda>n. n\<lparr>collapsed := True\<rparr>),
       collapsedSet := setAdd (collapsedSet s) i\<rparr>"

definition autoCollapseSiblings :: "TreeState \<Rightarrow> string \<Rightarrow> TreeState" where
  "autoCollapseSiblings s expandedId =
     (case map_of (tabs s) expandedId of
        None \<Rightarrow> s
      | Some node \<Rightarrow>
          (let siblingIds =
                 (if truthyId (parentId node) then
                    (case map_of (tabs s) (idStr (parentId node)) of
                       None \<Rightarrow> []
                     | Some p \<Rightarrow> childIds p)
                  else roots s)
           in foldl (\<lambda>s' siblingId.
                       if siblingId \<noteq> expandedId then
                         (case map_of (tabs s') siblingId of
                            None \<Rightarrow> s'
                          | Some sibling \<Rightarrow>
                              if childIds sibling \<noteq> [] then collapseNode s' siblingId else s')
                       else s')
                s siblingIds))"

definition toggleCollapsed :: "Prefs \<Rightarrow> TreeState \<Rightarrow> string \<Rightarrow> TreeState" where
  "toggleCollapsed prefs s i =
     (case map_of (tabs s) i of
        None \<Rightarrow> s
      | Some node \<Rightarrow>
          if childIds node = [] then s
          else if \<not> collapsed node then collapseNode s i
          else
            (let s1 = s\<lparr>tabs := mapModify (tabs s) i (\<lambda>n. n\<lparr>collapsed := False\<rparr>),
                        collapsedSet := setDelete (collapsedSet s) i\<rparr>
             in if autoCollapse prefs = Some True then autoCollapseSiblings s1 i else s1))"

definition collapseAll :: "TreeState \<Rightarrow> TreeState" where
  "collapseAll s =
     s\<lparr>tabs := map (\<lambda>e. if childIds (snd e) \<noteq> [] then (fst e, (snd e)\<lparr>collapsed := True\<rparr>)
                         else e) (tabs s),
       collapsedSet := foldl setAdd (collapsedSet s)
                         (map (\<lambda>e. id_n (snd e)) (filter (\<lambda>e. childIds (snd e) \<noteq> []) (tabs s)))\<rparr>"

definition expandAll :: "TreeState \<Rightarrow> TreeState" where
  "expandAll s =
     s\<lparr>tabs := map (\<lambda>e. (fst e, (snd e)\<lparr>collapsed := False\<rparr>)) (tabs s),
       collapsedSet := []\<rparr>"

section \<open>Traversal\<close>





section \<open>Persistence\<close>

text \<open>
  The document written by \<open>saveTreeStructure\<close> and read by \<open>loadTreeStructure\<close>, after
  \<open>JSON.parse\<close>. A field that a document may lack is optional.
\<close>

record TabData =
  td_id :: string
  td_parentId :: "string option"
  td_childIds :: "string list option"
  td_collapsed :: "bool option"
  td_nodeType :: "NodeType option"
  td_title :: "string option"
  td_type :: "string option"

record Doc =
  doc_version :: "nat option"
  doc_tabs :: "TabData list option"
  doc_roots :: "string list option"
  doc_collapsed :: "string list option"

definition saveTreeStructure :: "TreeState \<Rightarrow> Doc" where
  "saveTreeStructure s =
     \<lparr>doc_version = Some 1,
      doc_tabs = Some (map (\<lambda>e. \<lparr>td_id = fst e,
                                   td_parentId = parentId (snd e),
                                   td_childIds = Some (childIds (snd e)),
                                   td_collapsed = Some (collapsed (snd e)),
                                   td_nodeType = Some (nodeType (snd e)),
                                   td_title = Some (title (snd e)),
                                   td_type = Some (type (snd e))\<rparr>) (tabs s)),
      doc_roots = Some (roots s),
      doc_collapsed = Some (collapsedSet s)\<rparr>"

definition loadTab :: "Store \<Rightarrow> TabData \<Rightarrow> Store" where
  "loadTab t tabData =
     (if \<not> mapHas t (td_id tabData) then
        mapSet t (td_id tabData)
          \<lparr>id_n = td_id tabData,
           parentId = td_parentId tabData,
           childIds = (case td_childIds tabData of None \<Rightarrow> [] | Some cs \<Rightarrow> cs),
           level = 0,
           collapsed = (case td_collapsed tabData of None \<Rightarrow> False | Some b \<Rightarrow> b),
           title = (case td_title tabData of None \<Rightarrow> [] | Some x \<Rightarrow> x),
           type = (case td_type tabData of None \<Rightarrow> [] | Some x \<Rightarrow> x),
           nodeType = (case td_nodeType tabData of None \<Rightarrow> Tab | Some x \<Rightarrow> x),
           selected = False\<rparr>
      else t)"

text \<open>\<open>contents\<close> is \<open>None\<close> when the file is missing or empty.\<close>

definition loadTreeStructure :: "TreeState \<Rightarrow> Doc option \<Rightarrow> TreeState" where
  "loadTreeStructure s contents =
     (case contents of
        None \<Rightarrow> s
      | Some data \<Rightarrow>
          s\<lparr>roots := (case doc_roots data of None \<Rightarrow> [] | Some rs \<Rightarrow> rs),
            collapsedSet := foldl setAdd []
                              (case doc_collapsed data of None \<Rightarrow> [] | Some cs \<Rightarrow> cs),
            tabs := (case doc_tabs data of
                       None \<Rightarrow> tabs s
                     | Some tds \<Rightarrow> foldl loadTab (tabs s) tds)\<rparr>)"

text \<open>\<open>init\<close>: load, then recompute the levels.\<close>

definition init :: "nat \<Rightarrow> TreeState \<Rightarrow> Doc option \<Rightarrow> TreeState option" where
  "init f s contents = recalculateLevels f (loadTreeStructure s contents)"

section \<open>Host events and reconciliation\<close>

text \<open>\<open>onTabAdded\<close>: the body of the loop over \<open>ids\<close>, and the loop.\<close>

definition onTabAdded_for :: "ZTab list \<Rightarrow> TreeState \<Rightarrow> string \<Rightarrow> TreeState" where
  "onTabAdded_for zts s i =
     (case find (\<lambda>zt. zt_id zt = i) zts of
        None \<Rightarrow> s
      | Some zt \<Rightarrow>
          if \<not> mapHas (tabs s) i
          then addTab s i (orElse (zt_title zt) (zt_type zt)) (zt_type zt) None
          else s)"

definition onTabAdded :: "TreeState \<Rightarrow> ZTab list \<Rightarrow> string list \<Rightarrow> TreeState" where
  "onTabAdded s zts ids = foldl (onTabAdded_for zts) s ids"

text \<open>\<open>onTabSelected\<close>; \<open>ids[0]\<close> of an empty array is \<open>undefined\<close>, here \<open>None\<close>.\<close>

definition onTabSelected :: "TreeState \<Rightarrow> string list \<Rightarrow> TreeState" where
  "onTabSelected s ids =
     (let selectedId = (case ids of [] \<Rightarrow> None | i # _ \<Rightarrow> Some i)
      in s\<lparr>tabs := map (\<lambda>e. (fst e, (snd e)\<lparr>selected := (Some (id_n (snd e)) = selectedId)\<rparr>))
                      (tabs s),
           lastActiveTabId := selectedId\<rparr>)"

text \<open>
  The first pass of \<open>syncWithZoteroTabs\<close>, for one reported tab. The pass carries the
  state, \<open>currentTabIds\<close> (filled as the pass goes) and \<open>idMigrationMap\<close>.
\<close>

type_synonym SyncPass = "TreeState \<times> string list \<times> (string \<times> string) list"

text \<open>
  The search for a stored tab with the reported title whose id is not in
  \<open>currentTabIds\<close>: the first such entry in the order of the map.
\<close>

definition findExistingNode :: "Store \<Rightarrow> string \<Rightarrow> string list \<Rightarrow> (string \<times> TabNode) option" where
  "findExistingNode t ztTitle currentTabIds =
     find (\<lambda>e. nodeType (snd e) = Tab \<and> title (snd e) = ztTitle \<and> fst e \<notin> set currentTabIds) t"

definition syncTab :: "(nat \<Rightarrow> string option) \<Rightarrow> string option \<Rightarrow> SyncPass \<Rightarrow> ZTab \<Rightarrow> SyncPass" where
  "syncTab items selectedTabId acc zt =
     (case acc of (s, currentTabIds, idMigrationMap) \<Rightarrow>
        (let cur = setAdd currentTabIds (zt_id zt);
             ztTitle = getTabTitle items zt
         in case findExistingNode (tabs s) ztTitle cur of
              Some (tabId, existingNode) \<Rightarrow>
                (s\<lparr>tabs := mapSet (mapDelete (tabs s) (id_n existingNode)) (zt_id zt)
                              (existingNode\<lparr>id_n := zt_id zt, title := ztTitle,
                                             type := zt_type zt,
                                             selected := (Some (zt_id zt) = selectedTabId)\<rparr>)\<rparr>,
                 cur, mapSet idMigrationMap tabId (zt_id zt))
            | None \<Rightarrow>
                if \<not> mapHas (tabs s) (zt_id zt)
                then (addTab s (zt_id zt) ztTitle (zt_type zt) None, cur, idMigrationMap)
                else (s\<lparr>tabs := mapModify (tabs s) (zt_id zt)
                                   (\<lambda>n. n\<lparr>title := ztTitle, type := zt_type zt,
                                          selected := (Some (zt_id zt) = selectedTabId)\<rparr>)\<rparr>,
                      cur, idMigrationMap)))"

text \<open>The second pass: parent links, child lists, roots and the collapsed set.\<close>

definition migrated :: "(string \<times> string) list \<Rightarrow> string \<Rightarrow> string" where
  "migrated idMigrationMap x =
     (case map_of idMigrationMap x of None \<Rightarrow> x | Some y \<Rightarrow> orElse y x)"

definition migrateIds :: "(string \<times> string) list \<Rightarrow> TreeState \<Rightarrow> TreeState" where
  "migrateIds idMigrationMap s =
     (if idMigrationMap = [] then s
      else
        s\<lparr>tabs := map (\<lambda>e. (fst e,
                             (snd e)\<lparr>parentId :=
                                       (if truthyId (parentId (snd e))
                                           \<and> mapHas idMigrationMap (idStr (parentId (snd e)))
                                        then map_of idMigrationMap (idStr (parentId (snd e)))
                                        else parentId (snd e)),
                                     childIds := map (migrated idMigrationMap) (childIds (snd e))\<rparr>))
                    (tabs s),
          roots := map (migrated idMigrationMap) (roots s),
          collapsedSet := foldl setAdd [] (map (migrated idMigrationMap) (collapsedSet s))\<rparr>)"

text \<open>The loop that removes the tab nodes the host no longer reports.\<close>

fun removeClosed_for ::
  "nat \<Rightarrow> Prefs \<Rightarrow> string list \<Rightarrow> string list \<Rightarrow> TreeState \<Rightarrow> TreeState option"
where
  "removeClosed_for f prefs cur [] s = Some s"
| "removeClosed_for f prefs cur (tabId # rest) s =
     (case map_of (tabs s) tabId of
        None \<Rightarrow> removeClosed_for f prefs cur rest s
      | Some node \<Rightarrow>
          if nodeType node = Tab \<and> tabId \<notin> set cur then
            (case removeTabFromTree f prefs s tabId of
               None \<Rightarrow> None
             | Some s' \<Rightarrow> removeClosed_for f prefs cur rest s')
          else removeClosed_for f prefs cur rest s)"

definition updateSelection :: "string option \<Rightarrow> TreeState \<Rightarrow> TreeState" where
  "updateSelection selectedTabId s =
     s\<lparr>tabs := map (\<lambda>e. (fst e,
                          (snd e)\<lparr>selected := (nodeType (snd e) = Tab
                                                \<and> Some (id_n (snd e)) = selectedTabId)\<rparr>))
                 (tabs s)\<rparr>"

text \<open>
  \<open>syncWithZoteroTabs\<close>. \<open>zts\<close> is \<open>None\<close> when the host has no tab list. A level
  recomputation that does not return overflows the stack; the handler of the source
  catches that and leaves a partly updated store, which is \<open>None\<close> here.
\<close>

definition syncWithZoteroTabs ::
  "nat \<Rightarrow> (nat \<Rightarrow> string option) \<Rightarrow> Prefs \<Rightarrow> ZTab list option \<Rightarrow> string option \<Rightarrow> TreeState
     \<Rightarrow> TreeState option"
where
  "syncWithZoteroTabs f items prefs zts selectedTabId s =
     (case zts of
        None \<Rightarrow> Some s
      | Some zs \<Rightarrow>
          (case foldl (syncTab items selectedTabId) (s, [], []) zs of
             (s1, currentTabIds, idMigrationMap) \<Rightarrow>
               (let s2 = migrateIds idMigrationMap s1 in
                case removeClosed_for f prefs currentTabIds (map fst (tabs s2)) s2 of
                  None \<Rightarrow> None
                | Some s3 \<Rightarrow> recalculateLevels f (updateSelection selectedTabId s3))))"

section \<open>Predicates and example states\<close>

text \<open>An id is a child when some node of the store lists it in \<open>childIds\<close>.\<close>

definition isChild :: "TreeState \<Rightarrow> string \<Rightarrow> bool" where
  "isChild s k = list_ex (\<lambda>e. k \<in> set (childIds (snd e))) (tabs s)"

text \<open>A store with the single root tab \<open>a\<close>.\<close>

definition nodeA :: TabNode where
  "nodeA = newNode ''a'' None ''A'' ''reader'' Tab"

definition stateA :: TreeState where
  "stateA = emptyState\<lparr>tabs := [(''a'', nodeA)], roots := [''a'']\<rparr>"

definition noPrefs :: Prefs where
  "noPrefs = \<lparr>collapseOnClose = None, autoCollapse = None\<rparr>"

text \<open>Two reported tabs with the same title, and the stores that reconciling them produces.\<close>

definition tabSame1 :: ZTab where
  "tabSame1 = \<lparr>zt_id = ''t1'', zt_title = ''Same'', zt_type = ''reader'', zt_data = None\<rparr>"

definition tabSame2 :: ZTab where
  "tabSame2 = \<lparr>zt_id = ''t2'', zt_title = ''Same'', zt_type = ''reader'', zt_data = None\<rparr>"

definition sameNode :: "string \<Rightarrow> bool \<Rightarrow> TabNode" where
  "sameNode i sel = (newNode i None ''Same'' ''reader'' Tab)\<lparr>selected := sel\<rparr>"

definition stateSame :: "string list \<Rightarrow> TreeState" where
  "stateSame rs = emptyState\<lparr>tabs := [(''t1'', sameNode ''t1'' True), (''t2'', sameNode ''t2'' False)], roots := rs\<rparr>"

text \<open>A persisted document without a version field.\<close>

definition docNoVersion :: Doc where
  "docNoVersion =
     \<lparr>doc_version = None,
      doc_tabs = Some [\<lparr>td_id = ''a'', td_parentId = None, td_childIds = Some [],
                        td_collapsed = Some True, td_nodeType = Some Tab,
                        td_title = Some ''A'', td_type = Some ''reader''\<rparr>],
      doc_roots = Some [''a''],
      doc_collapsed = Some [''a'']\<rparr>"

text \<open>
  The collapsed flag of every stored node agrees with the membership of its key in the
  collapsed set.
\<close>

definition lockstep :: "TreeState \<Rightarrow> bool" where
  "lockstep s = list_all (\<lambda>e. collapsed (snd e) = (fst e \<in> set (collapsedSet s))) (tabs s)"

text \<open>Every id of the collapsed set is the key of a stored node.\<close>

definition collapsedLive :: "TreeState \<Rightarrow> bool" where
  "collapsedLive s = list_all (mapHas (tabs s)) (collapsedSet s)"

text \<open>Every node is stored under its own id.\<close>

definition ownIds :: "Store \<Rightarrow> bool" where
  "ownIds t = list_all (\<lambda>e. id_n (snd e) = fst e) t"

text \<open>
  The states that the operations of the manager reach from the empty state. Callers of
  \<open>addTab\<close> test \<open>tabs.has(id)\<close> first and \<open>createGroup\<close> draws a new id, so nodes are
  created under ids that the store does not hold.
\<close>

inductive engineReachable :: "TreeState \<Rightarrow> bool" where
  Empty: "engineReachable emptyState"
| AddTab: "engineReachable s \<Longrightarrow> \<not> mapHas (tabs s) i \<Longrightarrow> engineReachable (addTab s i ttl ty p)"
| CreateGroup:
    "engineReachable s \<Longrightarrow> \<not> mapHas (tabs s) i \<Longrightarrow> engineReachable (createGroup s i ttl p)"
| RemoveTab:
    "engineReachable s \<Longrightarrow> removeTabFromTree f prefs s i = Some s' \<Longrightarrow> engineReachable s'"
| RemoveGroup: "engineReachable s \<Longrightarrow> removeGroup f s i = Some s' \<Longrightarrow> engineReachable s'"
| Toggle: "engineReachable s \<Longrightarrow> engineReachable (toggleCollapsed prefs s i)"
| CollapseAll: "engineReachable s \<Longrightarrow> engineReachable (collapseAll s)"
| ExpandAll: "engineReachable s \<Longrightarrow> engineReachable (expandAll s)"
| Attach: "engineReachable s \<Longrightarrow> attachTabTo f s i p = Some s' \<Longrightarrow> engineReachable s'"

text \<open>The part of the store that the collapsed invariant reads.\<close>

definition cflags :: "Store \<Rightarrow> (string \<times> bool \<times> string) list" where
  "cflags t = map (\<lambda>e. (fst e, collapsed (snd e), id_n (snd e))) t"

definition collapseInv :: "TreeState \<Rightarrow> bool" where
  "collapseInv s =
     (lockstep s \<and> collapsedLive s \<and> ownIds (tabs s) \<and> distinct (map fst (tabs s)))"

text \<open>The tab \<open>a\<close> with the child \<open>b\<close>, after \<open>a\<close> was collapsed.\<close>

definition stateAB :: TreeState where
  "stateAB = addTab (addTab emptyState ''a'' ''A'' ''reader'' None) ''b'' ''B'' ''reader'' (Some ''a'')"

text \<open>A reported tab that the store does not know.\<close>

definition tabNew :: ZTab where
  "tabNew = \<lparr>zt_id = ''n1'', zt_title = ''New'', zt_type = ''reader'', zt_data = None\<rparr>"

section \<open>The tree as a graph\<close>

text \<open>
  The child list of the node stored under a key (empty for an unknown key), the children
  that are in the store, the child edges and the descendants of a key.
\<close>

definition cids :: "Store \<Rightarrow> string \<Rightarrow> string list" where
  "cids t k = (case map_of t k of None \<Rightarrow> [] | Some n \<Rightarrow> childIds n)"

definition kids :: "Store \<Rightarrow> string \<Rightarrow> string list" where
  "kids t k = filter (mapHas t) (cids t k)"

definition edges :: "Store \<Rightarrow> (string \<times> string) set" where
  "edges t = {(k, c). c \<in> set (kids t k)}"

definition desc :: "Store \<Rightarrow> string \<Rightarrow> string set" where
  "desc t p = {c. (p, c) \<in> (edges t)\<^sup>+}"

text \<open>
  Changing the nodes of a store entry by entry, and setting the levels of a set of keys
  from a level function.
\<close>

definition emap :: "(string \<Rightarrow> TabNode \<Rightarrow> TabNode) \<Rightarrow> Store \<Rightarrow> Store" where
  "emap h t = map (\<lambda>e. (fst e, h (fst e) (snd e))) t"

definition relevel :: "(string \<Rightarrow> nat) \<Rightarrow> string set \<Rightarrow> Store \<Rightarrow> Store" where
  "relevel L V t = emap (\<lambda>k n. if k \<in> V then n\<lparr>level := L k\<rparr> else n) t"

section \<open>Valid trees\<close>

text \<open>
  The invariants of the data model. The store is a map of non-empty ids to nodes that carry
  their own id; roots and child lists have no duplicates; every root is a stored node
  without parent at level 0; every child id is a stored node whose parent is the owner of
  the list and whose level is one more; every node without parent is a root and every
  other node is in the child list of its parent.
\<close>

definition nodeAt :: "Store \<Rightarrow> string \<Rightarrow> (TabNode \<Rightarrow> bool) \<Rightarrow> bool" where
  "nodeAt t k P = (case map_of t k of None \<Rightarrow> False | Some n \<Rightarrow> P n)"

definition validTree :: "TreeState \<Rightarrow> bool" where
  "validTree s =
     (distinct (map fst (tabs s)) \<and> ownIds (tabs s) \<and> \<not> mapHas (tabs s) []
      \<and> distinct (roots s) \<and> distinct (collapsedSet s)
      \<and> list_all (\<lambda>r. nodeAt (tabs s) r (\<lambda>n. parentId n = None \<and> level n = 0)) (roots s)
      \<and> list_all (\<lambda>e. distinct (childIds (snd e))
                     \<and> list_all (\<lambda>c. nodeAt (tabs s) c
                                        (\<lambda>m. parentId m = Some (fst e)
                                              \<and> level m = level (snd e) + 1))
                           (childIds (snd e)))
            (tabs s)
      \<and> list_all (\<lambda>e. case parentId (snd e) of
                          None \<Rightarrow> fst e \<in> set (roots s)
                        | Some p \<Rightarrow> nodeAt (tabs s) p (\<lambda>n. fst e \<in> set (childIds n)))
            (tabs s))"

text \<open>The largest level of the store bounds the depth of every recursion over a valid tree.\<close>

definition maxLevel :: "Store \<Rightarrow> nat" where
  "maxLevel t = foldr (\<lambda>e m. max (level (snd e)) m) t 0"

text \<open>The keys reached from the roots; in a valid tree these are all keys.\<close>

definition fromRoots :: "TreeState \<Rightarrow> string set" where
  "fromRoots s = (\<Union>r\<in>set (filter (mapHas (tabs s)) (roots s)). insert r (desc (tabs s) r))"

text \<open>What a saved node keeps, and the record written for a store entry.\<close>

definition persisted :: "TabNode \<Rightarrow> TabNode" where
  "persisted n = n\<lparr>level := 0, selected := False\<rparr>"

definition toTabData :: "string \<times> TabNode \<Rightarrow> TabData" where
  "toTabData e = \<lparr>td_id = fst e, td_parentId = parentId (snd e),
                   td_childIds = Some (childIds (snd e)),
                   td_collapsed = Some (collapsed (snd e)),
                   td_nodeType = Some (nodeType (snd e)),
                   td_title = Some (title (snd e)),
                   td_type = Some (type (snd e))\<rparr>"

text \<open>
  The roots \<open>a\<close> and \<open>d\<close>; \<open>a\<close> is collapsed and has the child \<open>b\<close>, which has the
  child \<open>c\<close>.
\<close>

definition treeABCD :: TreeState where
  "treeABCD =
     \<lparr>tabs = [(''a'', (newNode ''a'' None ''A'' ''reader'' Tab)
                        \<lparr>childIds := [''b''], collapsed := True\<rparr>),
              (''b'', (newNode ''b'' (Some ''a'') ''B'' ''reader'' Tab)
                        \<lparr>childIds := [''c''], level := 1\<rparr>),
              (''c'', (newNode ''c'' (Some ''b'') ''C'' ''reader'' Tab)\<lparr>level := 2\<rparr>),
              (''d'', newNode ''d'' None ''D'' ''library'' Tab)],
      roots = [''a'', ''d''], collapsedSet = [''a''], lastActiveTabId = None\<rparr>"

section \<open>Depth-first order\<close>


subsection \<open>The collapsed flags do not change the order\<close>




text \<open>
  The store while \<open>removeNodeFromTree\<close> promotes the children of \<open>node\<close>: the children in
  \<open>done\<close> have the parent of \<open>node\<close> and they and their descendants are one level up; the
  parent of \<open>node\<close> lists them after its own children.
\<close>

definition promoteNode :: "TabNode \<Rightarrow> string list \<Rightarrow> Store \<Rightarrow> string \<Rightarrow> TabNode \<Rightarrow> TabNode" where
  "promoteNode node done t0 k n =
     n\<lparr>parentId := (if k \<in> set done then parentId node else parentId n),
       level := (if k \<in> (\<Union>c\<in>set done. insert c (desc t0 c)) then level n - 1 else level n),
       childIds := (if Some k = parentId node then childIds n @ done else childIds n)\<rparr>"

definition promoted :: "TabNode \<Rightarrow> string list \<Rightarrow> Store \<Rightarrow> Store" where
  "promoted node done t0 = emap (promoteNode node done t0) t0"

text \<open>
  The store after \<open>removeNodeFromTree\<close> has removed \<open>node\<close>, stored under \<open>P\<close>, and promoted
  its children.
\<close>

definition withoutNode :: "string \<Rightarrow> TabNode \<Rightarrow> Store \<Rightarrow> string \<Rightarrow> TabNode \<Rightarrow> TabNode" where
  "withoutNode P node t0 k n =
     n\<lparr>parentId := (if k \<in> set (childIds node) then parentId node else parentId n),
       level := (if k \<in> desc t0 P then level n - 1 else level n),
       childIds := (if Some k = parentId node then remove1 P (childIds n) @ childIds node
                    else childIds n)\<rparr>"

definition afterRemoval :: "string \<Rightarrow> TabNode \<Rightarrow> TreeState \<Rightarrow> TreeState" where
  "afterRemoval P node s =
     s\<lparr>tabs := mapDelete (emap (withoutNode P node (tabs s)) (tabs s)) P,
       roots := (if parentId node = None then remove1 P (roots s) @ childIds node else roots s),
       collapsedSet := setDelete (collapsedSet s) P\<rparr>"



text \<open>The root \<open>g\<close> with the children \<open>p\<close> and \<open>q\<close>; \<open>p\<close> has the child \<open>x\<close>.\<close>

definition treeGPQ :: TreeState where
  "treeGPQ =
     \<lparr>tabs = [(''g'', (newNode ''g'' None ''G'' ''group'' Group)\<lparr>childIds := [''p'', ''q'']\<rparr>),
              (''p'', (newNode ''p'' (Some ''g'') ''P'' ''reader'' Tab)
                        \<lparr>childIds := [''x''], level := 1\<rparr>),
              (''q'', (newNode ''q'' (Some ''g'') ''Q'' ''reader'' Tab)\<lparr>level := 1\<rparr>),
              (''x'', (newNode ''x'' (Some ''p'') ''X'' ''reader'' Tab)\<lparr>level := 2\<rparr>)],
      roots = [''g''], collapsedSet = [], lastActiveTabId = None\<rparr>"

text \<open>The node \<open>b\<close> of the tree above.\<close>

definition nodeB :: TabNode where
  "nodeB = (newNode ''b'' (Some ''a'') ''B'' ''reader'' Tab)\<lparr>childIds := [''c''], level := 1\<rparr>"

section \<open>Identifier migration\<close>

text \<open>Two nodes with the same links: parent, children, level, collapsed flag and kind.\<close>

definition sameLinks :: "TabNode \<Rightarrow> TabNode \<Rightarrow> bool" where
  "sameLinks a b =
     (parentId a = parentId b \<and> childIds a = childIds b \<and> level a = level b
      \<and> collapsed a = collapsed b \<and> nodeType a = nodeType b)"

text \<open>
  What the first pass of the reconciler keeps true, for the store \<open>s\<close> it started from
  and the reported tabs \<open>zs\<close> it has processed. A stored node that was not relabelled and
  whose id is not the target of a relabelling is still under its id, with its links, and
  untouched while its id is not among the processed ones; a relabelled node is under its
  new id, with its links; it was a tab with the title of the reported tab of that id.
\<close>

definition passInv ::
  "(nat \<Rightarrow> string option) \<Rightarrow> TreeState \<Rightarrow> ZTab list \<Rightarrow> SyncPass \<Rightarrow> bool"
where
  "passInv items s zs acc =
     (case acc of (s', cur, mig) \<Rightarrow>
        set cur = set (map zt_id zs)
        \<and> distinct (map fst (tabs s')) \<and> ownIds (tabs s')
        \<and> set (map fst (tabs s')) \<subseteq> set (map fst (tabs s)) \<union> set cur
        \<and> snd ` set mig \<subseteq> set cur
        \<and> (\<exists>extra. roots s' = roots s @ extra)
        \<and> collapsedSet s' = collapsedSet s
        \<and> (\<forall>k orig. map_of (tabs s) k = Some orig \<longrightarrow> map_of mig k = None
              \<longrightarrow> k \<notin> snd ` set mig
              \<longrightarrow> (\<exists>node'. map_of (tabs s') k = Some node' \<and> sameLinks node' orig
                      \<and> (k \<notin> set cur \<longrightarrow> node' = orig)))
        \<and> (\<forall>k n. map_of mig k = Some n \<longrightarrow>
              (k \<notin> set cur \<longrightarrow> map_of (tabs s') k = None)
              \<and> (\<exists>orig z node'. map_of (tabs s) k = Some orig \<and> nodeType orig = Tab
                     \<and> z \<in> set zs \<and> zt_id z = n \<and> title orig = getTabTitle items z
                     \<and> map_of (tabs s') n = Some node' \<and> sameLinks node' orig)))"

text \<open>Some cross-reference of the state holds the id \<open>k\<close>.\<close>

definition refersTo :: "TreeState \<Rightarrow> string \<Rightarrow> bool" where
  "refersTo s k =
     (k \<in> set (roots s) \<or> k \<in> set (collapsedSet s)
      \<or> list_ex (\<lambda>e. parentId (snd e) = Some k \<or> k \<in> set (childIds (snd e))) (tabs s))"

text \<open>
  A store with the collapsed root tab \<open>old1\<close>, titled \<open>Paper.pdf\<close>, and its child
  \<open>y1\<close>; the host then reports the tab of that title under the id \<open>new1\<close>, and \<open>y1\<close>.
\<close>

definition nodeX :: TabNode where
  "nodeX = (newNode ''old1'' None ''Paper.pdf'' ''reader'' Tab)
             \<lparr>childIds := [''y1''], collapsed := True\<rparr>"

definition nodeY :: TabNode where
  "nodeY = (newNode ''y1'' (Some ''old1'') ''Notes'' ''reader'' Tab)\<lparr>level := 1\<rparr>"

definition stateXY :: TreeState where
  "stateXY = emptyState\<lparr>tabs := [(''old1'', nodeX), (''y1'', nodeY)], roots := [''old1''],
                         collapsedSet := [''old1'']\<rparr>"

definition reportedNew1 :: ZTab where
  "reportedNew1 = \<lparr>zt_id = ''new1'', zt_title = ''Paper.pdf'', zt_type = ''reader'',
                    zt_data = None\<rparr>"

definition reportedY1 :: ZTab where
  "reportedY1 = \<lparr>zt_id = ''y1'', zt_title = ''Notes'', zt_type = ''reader'', zt_data = None\<rparr>"

text \<open>The store after the first pass over that report.\<close>

definition passedXY :: TreeState where
  "passedXY = emptyState\<lparr>tabs := [(''y1'', nodeY),
                                   (''new1'', nodeX\<lparr>id_n := ''new1'', selected := True\<rparr>)],
                          roots := [''old1''], collapsedSet := [''old1'']\<rparr>"

section \<open>Reconciliations that lose a stored node\<close>

text \<open>
  The group \<open>g\<close> holds the collapsed tab \<open>old1\<close>, titled \<open>Paper.pdf\<close>, which has the
  children \<open>y1\<close>, titled \<open>Notes\<close>, and \<open>w1\<close>. The roots \<open>z1\<close>, also titled \<open>Notes\<close>,
  and \<open>r1\<close> are tabs that the host no longer reports. The host reports \<open>new1\<close>, titled
  \<open>Paper.pdf\<close>, the tabs \<open>y1\<close> and \<open>w1\<close>, and a new tab \<open>n1\<close>. And the store that the
  reconciliation of that report leaves.
\<close>

definition nodeG :: TabNode where
  "nodeG = (newNode ''g'' None ''Papers'' ''group'' Group)\<lparr>childIds := [''old1'']\<rparr>"

definition nodeOld1 :: TabNode where
  "nodeOld1 = (newNode ''old1'' (Some ''g'') ''Paper.pdf'' ''reader'' Tab)
                \<lparr>childIds := [''y1'', ''w1''], level := 1, collapsed := True\<rparr>"

definition nodeY1 :: TabNode where
  "nodeY1 = (newNode ''y1'' (Some ''old1'') ''Notes'' ''reader'' Tab)\<lparr>level := 2\<rparr>"

definition nodeW1 :: TabNode where
  "nodeW1 = (newNode ''w1'' (Some ''old1'') ''Other'' ''reader'' Tab)\<lparr>level := 2\<rparr>"

definition nodeZ1 :: TabNode where
  "nodeZ1 = newNode ''z1'' None ''Notes'' ''reader'' Tab"

definition nodeR1 :: TabNode where
  "nodeR1 = newNode ''r1'' None ''Gone'' ''reader'' Tab"

definition stateRelabel :: TreeState where
  "stateRelabel =
     emptyState\<lparr>tabs := [(''g'', nodeG), (''old1'', nodeOld1), (''y1'', nodeY1),
                         (''w1'', nodeW1), (''z1'', nodeZ1), (''r1'', nodeR1)],
                roots := [''g'', ''z1'', ''r1''], collapsedSet := [''old1'']\<rparr>"

definition reportedW1 :: ZTab where
  "reportedW1 = \<lparr>zt_id = ''w1'', zt_title = ''Other'', zt_type = ''reader'', zt_data = None\<rparr>"

definition reportedN1 :: ZTab where
  "reportedN1 = \<lparr>zt_id = ''n1'', zt_title = ''New'', zt_type = ''reader'', zt_data = None\<rparr>"

definition syncedRelabel :: TreeState where
  "syncedRelabel =
     emptyState\<lparr>tabs := [(''g'', nodeG\<lparr>childIds := [''new1'']\<rparr>),
                         (''y1'', nodeZ1\<lparr>id_n := ''y1''\<rparr>),
                         (''w1'', nodeW1\<lparr>parentId := Some ''new1''\<rparr>),
                         (''new1'', nodeOld1\<lparr>id_n := ''new1'', selected := True\<rparr>),
                         (''n1'', newNode ''n1'' None ''New'' ''reader'' Tab)],
                roots := [''g'', ''y1'', ''n1''], collapsedSet := [''new1'']\<rparr>"

text \<open>
  The root \<open>p\<close> with the child \<open>t2\<close>, titled \<open>Same\<close>. The host reports \<open>p\<close>, a new tab
  \<open>t3\<close> with the title \<open>Same\<close>, and \<open>t2\<close>.
\<close>

definition nodeP :: TabNode where
  "nodeP = (newNode ''p'' None ''P'' ''reader'' Tab)\<lparr>childIds := [''t2'']\<rparr>"

definition nodeT2 :: TabNode where
  "nodeT2 = (newNode ''t2'' (Some ''p'') ''Same'' ''reader'' Tab)\<lparr>level := 1\<rparr>"

definition statePT :: TreeState where
  "statePT = emptyState\<lparr>tabs := [(''p'', nodeP), (''t2'', nodeT2)], roots := [''p'']\<rparr>"

definition reportedP :: ZTab where
  "reportedP = \<lparr>zt_id = ''p'', zt_title = ''P'', zt_type = ''reader'', zt_data = None\<rparr>"

definition reportedT3 :: ZTab where
  "reportedT3 = \<lparr>zt_id = ''t3'', zt_title = ''Same'', zt_type = ''reader'', zt_data = None\<rparr>"

definition syncedPT :: TreeState where
  "syncedPT = emptyState\<lparr>tabs := [(''p'', nodeP\<lparr>childIds := [''t3''], selected := True\<rparr>),
                                  (''t3'', nodeT2\<lparr>id_n := ''t3'', level := 0\<rparr>),
                                  (''t2'', newNode ''t2'' None ''Same'' ''reader'' Tab)],
                          roots := [''p'', ''t3'']\<rparr>"

text \<open>
  The tabs \<open>t1\<close> and \<open>t2\<close>, both titled \<open>Same\<close>, and the tab \<open>k\<close> under \<open>t1\<close>, created
  in the empty store; then \<open>t1\<close> is collapsed. And the store that the reconciliation of
  the report \<open>t1\<close>, \<open>t2\<close>, \<open>k\<close> leaves.
\<close>

definition reportedK :: ZTab where
  "reportedK = \<lparr>zt_id = ''k'', zt_title = ''K'', zt_type = ''reader'', zt_data = None\<rparr>"

definition stateT1K :: TreeState where
  "stateT1K =
     toggleCollapsed noPrefs
       (addTab (addTab (addTab emptyState ''t1'' ''Same'' ''reader'' None)
                  ''t2'' ''Same'' ''reader'' None)
          ''k'' ''K'' ''reader'' (Some ''t1''))
       ''t1''"

definition syncedT1K :: TreeState where
  "syncedT1K = emptyState\<lparr>tabs := [(''t1'', sameNode ''t1'' True),
                                   (''k'', (newNode ''k'' (Some ''t1'') ''K'' ''reader'' Tab)
                                             \<lparr>level := 1\<rparr>),
                                   (''t2'', sameNode ''t2'' False)],
                           roots := [''t1'', ''t1'', ''t1''], collapsedSet := [''t1'']\<rparr>"

section \<open>Properties\<close>

subsection \<open>The store operations\<close>

lemma map_of_mapModify:
  "map_of (mapModify m k f) k' = (if k' = k then map_option f (map_of m k) else map_of m k')"
  by (induction m) (auto simp: mapModify_def)

lemma map_fst_mapModify: "map fst (mapModify m k f) = map fst m"
  by (induction m) (auto simp: mapModify_def)

subsection \<open>Reparenting a tab under itself\<close>

lemma own_child_no_return:
  "map_of t a = Some n \<Longrightarrow> childIds n = a # cs \<Longrightarrow> updateChildLevels f t a = None"
proof (induction f arbitrary: t n)
  case 0
  show ?case by simp
next
  case (Suc f)
  let ?t' = "mapModify t a (\<lambda>c. c\<lparr>level := levelOf t a + 1\<rparr>)"
  have "map_of ?t' a = Some (n\<lparr>level := levelOf t a + 1\<rparr>)"
    using Suc.prems(1) by (simp add: map_of_mapModify)
  moreover have "childIds (n\<lparr>level := levelOf t a + 1\<rparr>) = a # cs"
    using Suc.prems(2) by simp
  ultimately have "updateChildLevels f ?t' a = None"
    by (rule Suc.IH)
  then show ?case
    using Suc.prems by simp
qed

text \<open>
  Claim C1. The cycle guard of \<open>attachTabTo\<close> looks for the new parent among the
  descendants of the tab, and a tab is not among its own descendants. In the store with
  the single root \<open>a\<close>, \<open>attachTabTo("a", "a")\<close> is not rejected: \<open>a\<close> leaves the roots
  and becomes its own parent and its own child, and the level recomputation that follows
  never returns, whatever the depth allowed.
\<close>

theorem attachTabTo_self_not_rejected:
  "relink stateA ''a'' nodeA (Some ''a'') =
     emptyState\<lparr>tabs := [(''a'', nodeA\<lparr>parentId := Some ''a'', childIds := [''a''], level := 1\<rparr>)]\<rparr>
   \<and> (\<forall>f. attachTabTo f stateA ''a'' (Some ''a'') = None)"
proof
  show r: "relink stateA ''a'' nodeA (Some ''a'') =
     emptyState\<lparr>tabs := [(''a'', nodeA\<lparr>parentId := Some ''a'', childIds := [''a''], level := 1\<rparr>)]\<rparr>"
    by (simp add: relink_def stateA_def nodeA_def newNode_def emptyState_def truthyId_def truthy_def
        idStr_def mapModify_def mapHas_def levelOf_def)
  show "\<forall>f. attachTabTo f stateA ''a'' (Some ''a'') = None"
  proof
    fix f
    show "attachTabTo f stateA ''a'' (Some ''a'') = None"
    proof (cases f)
      case 0
      then show ?thesis
        by (simp add: attachTabTo_def stateA_def truthyId_def truthy_def emptyState_def)
    next
      case (Suc g)
      have t: "map_of (tabs stateA) ''a'' = Some nodeA"
        by (simp add: stateA_def emptyState_def)
      have d: "getDescendants (Suc g) (tabs stateA) ''a'' = Some []"
        by (simp add: stateA_def emptyState_def nodeA_def newNode_def)
      have u: "updateChildLevels (Suc g) (tabs (relink stateA ''a'' nodeA (Some ''a''))) ''a'' = None"
        unfolding r
        by (rule own_child_no_return
              [where cs = "[]"
                 and n = "nodeA\<lparr>parentId := Some ''a'', childIds := [''a''], level := 1\<rparr>"])
           (simp_all add: emptyState_def)
      show ?thesis
        using u d unfolding Suc
        by (simp add: attachTabTo_def t truthyId_def truthy_def idStr_def
              del: updateChildLevels.simps getDescendants.simps)
    qed
  qed
qed

subsection \<open>Reparenting under an unknown id\<close>

text \<open>
  Claim C2. In the store with the single root \<open>a\<close>, \<open>attachTabTo("a", "ghost")\<close> with no
  node \<open>ghost\<close> takes \<open>a\<close> out of the roots and puts it in no child list: the node is
  then neither a root nor a child. \<open>addTab\<close> with the same unknown parent makes the node
  a root.
\<close>

theorem attachTabTo_unknown_parent_orphans:
  "attachTabTo (Suc f) stateA ''a'' (Some ''ghost'') =
     Some (emptyState\<lparr>tabs := [(''a'', nodeA\<lparr>parentId := Some ''ghost''\<rparr>)]\<rparr>)
   \<and> ''a'' \<notin> set (roots (emptyState\<lparr>tabs := [(''a'', nodeA\<lparr>parentId := Some ''ghost''\<rparr>)]\<rparr>))
   \<and> \<not> isChild (emptyState\<lparr>tabs := [(''a'', nodeA\<lparr>parentId := Some ''ghost''\<rparr>)]\<rparr>) ''a''
   \<and> addTab emptyState ''a'' ''A'' ''reader'' (Some ''ghost'') = stateA"
  by (simp add: attachTabTo_def relink_def stateA_def nodeA_def newNode_def emptyState_def
        truthyId_def truthy_def idStr_def mapModify_def mapHas_def levelOf_def isChild_def
        addTab_def insertNode_def mapSet_def)

subsection \<open>Reconciling twice\<close>

lemma title_same1: "getTabTitle items tabSame1 = ''Same''"
  by (simp add: getTabTitle_def tabSame1_def truthy_def isSpace_def isSpace2_def isSpace3_def)

lemma title_same2: "getTabTitle items tabSame2 = ''Same''"
  by (simp add: getTabTitle_def tabSame2_def truthy_def isSpace_def isSpace2_def isSpace3_def)

lemma tabSame_fields:
  "zt_id tabSame1 = ''t1''" "zt_type tabSame1 = ''reader''"
  "zt_id tabSame2 = ''t2''" "zt_type tabSame2 = ''reader''"
  by (simp_all add: tabSame1_def tabSame2_def)

lemmas sync_eval =
  syncTab_def findExistingNode_def title_same1 title_same2 tabSame_fields setAdd_def Let_def
  emptyState_def addTab_def insertNode_def newNode_def truthyId_def truthy_def mapHas_def
  mapSet_def mapDelete_def mapModify_def stateSame_def sameNode_def

lemma first_pass_fresh:
  "foldl (syncTab items (Some ''t1'')) (emptyState, [], []) [tabSame1, tabSame2]
     = (emptyState\<lparr>tabs := [(''t1'', sameNode ''t1'' False), (''t2'', sameNode ''t2'' False)],
                   roots := [''t1'', ''t2'']\<rparr>, [''t1'', ''t2''], [])"
  by (simp add: sync_eval)

lemma first_pass_again:
  "foldl (syncTab items (Some ''t1'')) (stateSame [''t1'', ''t2''], [], []) [tabSame1, tabSame2]
     = (emptyState\<lparr>tabs := [(''t1'', sameNode ''t1'' True), (''t2'', sameNode ''t2'' False)],
                   roots := [''t1'', ''t2'', ''t2'']\<rparr>, [''t1'', ''t2''], [(''t2'', ''t1'')])"
  by (simp add: sync_eval)

lemmas sync_rest =
  syncWithZoteroTabs_def migrateIds_def migrated_def orElse_def idStr_def truthyId_def truthy_def
  mapHas_def mapModify_def updateSelection_def recalculateLevels_def levelOf_def
  emptyState_def stateSame_def sameNode_def newNode_def

text \<open>
  Claim C4. The host reports the tabs \<open>t1\<close> and \<open>t2\<close>, both titled \<open>Same\<close>. The first
  reconciliation of the empty store creates two roots. The second one, with the same
  report, finds the stored \<open>t2\<close> while \<open>currentTabIds\<close> holds \<open>t1\<close> only, takes it for
  a tab that lost its id and relabels it \<open>t1\<close>; \<open>t2\<close> is then created again and every
  root entry \<open>t2\<close> is renamed: the roots become \<open>t1, t1, t1\<close>.
\<close>

theorem sync_twice_same_titles:
  "syncWithZoteroTabs (Suc f) items prefs (Some [tabSame1, tabSame2]) (Some ''t1'') emptyState
     = Some (stateSame [''t1'', ''t2''])
   \<and> syncWithZoteroTabs (Suc f) items prefs (Some [tabSame1, tabSame2]) (Some ''t1'')
       (stateSame [''t1'', ''t2''])
     = Some (stateSame [''t1'', ''t1'', ''t1''])"
proof
  show "syncWithZoteroTabs (Suc f) items prefs (Some [tabSame1, tabSame2]) (Some ''t1'') emptyState
     = Some (stateSame [''t1'', ''t2''])"
    unfolding syncWithZoteroTabs_def first_pass_fresh option.case prod.case
    by (simp add: sync_rest)
  show "syncWithZoteroTabs (Suc f) items prefs (Some [tabSame1, tabSame2]) (Some ''t1'')
       (stateSame [''t1'', ''t2''])
     = Some (stateSame [''t1'', ''t1'', ''t1''])"
    unfolding syncWithZoteroTabs_def first_pass_again option.case prod.case
    by (simp add: sync_rest)
qed

subsection \<open>Loading and the version field\<close>

text \<open>
  Claim C9, as stated: a document without a version is discarded. The loader restores
  the root, the collapsed entry and the node of such a document.
\<close>

theorem load_without_version_restores:
  "doc_version docNoVersion = None
   \<and> loadTreeStructure emptyState (Some docNoVersion)
       = emptyState\<lparr>tabs := [(''a'', nodeA\<lparr>collapsed := True\<rparr>)], roots := [''a''],
                     collapsedSet := [''a'']\<rparr>"
  by (simp add: docNoVersion_def loadTreeStructure_def emptyState_def loadTab_def mapHas_def
      mapSet_def setAdd_def nodeA_def newNode_def)

text \<open>
  Claim C9, amended: the loader never reads the version field; whatever the field holds,
  the document is loaded as the same document with any other version.
\<close>

theorem load_ignores_version:
  "loadTreeStructure s (Some (d\<lparr>doc_version := v\<rparr>)) = loadTreeStructure s (Some d)"
  by (simp add: loadTreeStructure_def)

subsection \<open>New tabs are roots\<close>

text \<open>
  The step of the reconciler and the step of the tab-added handler for one reported tab.
  When the reconciler reaches a reported tab whose id is not in the store and its search
  for a stored tab to relabel finds none, and when the tab-added handler is told of a
  reported tab whose id is not in the store, the store gains one entry at its
  end, a tab node under the reported id with no parent and level 0, and the id is
  appended to the roots. Nothing in the result depends on \<open>lastActiveTabId\<close>.
\<close>

lemma new_tab_is_root:
  assumes "\<not> mapHas (tabs s) (zt_id zt)"
  shows "(findExistingNode (tabs s) (getTabTitle items zt) (setAdd cur (zt_id zt)) = None \<longrightarrow>
            (\<exists>node. syncTab items sel (s, cur, mig) zt =
                      (s\<lparr>tabs := tabs s @ [(zt_id zt, node)], roots := roots s @ [zt_id zt]\<rparr>,
                       setAdd cur (zt_id zt), mig)
                    \<and> id_n node = zt_id zt \<and> nodeType node = Tab
                    \<and> parentId node = None \<and> level node = 0))
       \<and> (find (\<lambda>z. zt_id z = zt_id zt) zts \<noteq> None \<longrightarrow>
            (\<exists>node. onTabAdded_for zts s (zt_id zt) =
                      s\<lparr>tabs := tabs s @ [(zt_id zt, node)], roots := roots s @ [zt_id zt]\<rparr>
                    \<and> id_n node = zt_id zt \<and> nodeType node = Tab
                    \<and> parentId node = None \<and> level node = 0))"
  using assms
  by (auto simp: syncTab_def onTabAdded_for_def addTab_def insertNode_def newNode_def Let_def
      truthyId_def mapSet_def)

lemma new_tab_is_root_witness:
  "\<not> mapHas (tabs (onTabSelected stateA [''a''])) (zt_id tabNew)
   \<and> findExistingNode (tabs (onTabSelected stateA [''a''])) (getTabTitle (\<lambda>_. None) tabNew)
         (setAdd [] (zt_id tabNew)) = None
   \<and> find (\<lambda>z. zt_id z = zt_id tabNew) [tabNew] \<noteq> None
   \<and> (\<exists>node. syncTab (\<lambda>_. None) None (onTabSelected stateA [''a''], [], []) tabNew =
                ((onTabSelected stateA [''a''])
                   \<lparr>tabs := tabs (onTabSelected stateA [''a'']) @ [(''n1'', node)],
                    roots := [''a'', ''n1'']\<rparr>, [''n1''], [])
              \<and> parentId node = None \<and> level node = 0)
   \<and> (\<exists>node. onTabAdded_for [tabNew] (onTabSelected stateA [''a'']) ''n1'' =
                (onTabSelected stateA [''a''])
                   \<lparr>tabs := tabs (onTabSelected stateA [''a'']) @ [(''n1'', node)],
                    roots := [''a'', ''n1'']\<rparr>
              \<and> parentId node = None \<and> level node = 0)"
proof -
  have h: "\<not> mapHas (tabs (onTabSelected stateA [''a''])) (zt_id tabNew)"
    by (simp add: onTabSelected_def stateA_def emptyState_def tabNew_def mapHas_def)
  have f: "findExistingNode (tabs (onTabSelected stateA [''a''])) (getTabTitle (\<lambda>_. None) tabNew)
         (setAdd [] (zt_id tabNew)) = None"
    by (simp add: onTabSelected_def stateA_def emptyState_def tabNew_def findExistingNode_def
        getTabTitle_def truthy_def isSpace_def isSpace2_def isSpace3_def nodeA_def newNode_def)
  have z: "find (\<lambda>z. zt_id z = zt_id tabNew) [tabNew] \<noteq> None"
    by simp
  have r: "roots (onTabSelected stateA [''a'']) = [''a'']" "zt_id tabNew = ''n1''"
    by (simp_all add: onTabSelected_def stateA_def emptyState_def tabNew_def)
  from new_tab_is_root [OF h, of "\<lambda>_. None" "[]" None "[]" "[tabNew]"] f z h
  show ?thesis
    by (simp add: r setAdd_def) blast
qed

subsection \<open>The collapsed flag and the collapsed set\<close>

lemma mapHas_cflags: "mapHas t k = (k \<in> set (map fst (cflags t)))"
  by (simp add: mapHas_def cflags_def comp_def)

lemma collapseInv_cflags:
  "collapseInv s =
     (list_all (\<lambda>x. fst (snd x) = (fst x \<in> set (collapsedSet s))) (cflags (tabs s))
      \<and> list_all (\<lambda>k. k \<in> set (map fst (cflags (tabs s)))) (collapsedSet s)
      \<and> list_all (\<lambda>x. snd (snd x) = fst x) (cflags (tabs s))
      \<and> distinct (map fst (cflags (tabs s))))"
  by (simp add: collapseInv_def lockstep_def collapsedLive_def ownIds_def cflags_def
      list_all_iff mapHas_def comp_def)

lemma collapseInv_cong:
  "cflags (tabs s') = cflags (tabs s) \<Longrightarrow> collapsedSet s' = collapsedSet s
   \<Longrightarrow> collapseInv s' = collapseInv s"
  by (simp add: collapseInv_cflags)

lemma cflags_mapModify:
  "(\<And>n. collapsed (g n) = collapsed n \<and> id_n (g n) = id_n n) \<Longrightarrow> cflags (mapModify t k g) = cflags t"
  by (induction t) (auto simp: cflags_def mapModify_def)

lemma cflags_updateChildLevels:
  "updateChildLevels f t p = Some t' \<Longrightarrow> cflags t' = cflags t"
  "updateChildLevels_for f t p cs = Some t' \<Longrightarrow> cflags t' = cflags t"
proof (induction f t p and f t p cs arbitrary: t' and t' rule: updateChildLevels_updateChildLevels_for.induct)
  case (1 t pId)
  then show ?case by simp
next
  case (2 f t pId)
  then show ?case by (auto split: option.splits)
next
  case (3 f t pId)
  then show ?case by simp
next
  case (4 f t pId childId rest)
  show ?case
  proof (cases "map_of t childId")
    case None
    then show ?thesis using 4 by simp
  next
    case (Some child)
    let ?t1 = "mapModify t childId (\<lambda>c. c\<lparr>level := levelOf t pId + 1\<rparr>)"
    from 4(4) Some obtain t2 where
      a: "updateChildLevels f ?t1 childId = Some t2" and
      b: "updateChildLevels_for f t2 pId rest = Some t'"
      by (auto split: option.splits)
    have "cflags t2 = cflags ?t1" using 4(2) [OF Some a] .
    moreover have "cflags t' = cflags t2" using 4(3) [OF Some a b] .
    moreover have "cflags ?t1 = cflags t" by (simp add: cflags_mapModify)
    ultimately show ?thesis by simp
  qed
qed

lemma collapseInv_empty: "collapseInv emptyState"
  by (simp add: collapseInv_def lockstep_def collapsedLive_def ownIds_def emptyState_def)

lemma collapseInv_tabs_update:
  "cflags t' = cflags (tabs s) \<Longrightarrow> collapseInv (s\<lparr>tabs := t'\<rparr>) = collapseInv s"
  by (rule collapseInv_cong) simp_all

lemma collapseInv_roots_update: "collapseInv (s\<lparr>roots := r\<rparr>) = collapseInv s"
  by (rule collapseInv_cong) simp_all

lemma collapseInv_insertNode:
  assumes "collapseInv s" and "\<not> mapHas (tabs s) (id_n node)" and "\<not> collapsed node"
  shows "collapseInv (insertNode s node)"
proof -
  let ?i = "id_n node"
  have fresh: "?i \<notin> set (collapsedSet s)"
    using assms(1,2) by (auto simp: collapseInv_def collapsedLive_def list_all_iff)
  have app: "collapseInv (s\<lparr>tabs := mapSet t ?i n'\<rparr>)"
    if c: "cflags t = cflags (tabs s)" and i: "id_n n' = ?i" and n: "\<not> collapsed n'"
    for t and n' :: TabNode
  proof -
    have "\<not> mapHas t ?i" using assms(2) c by (simp add: mapHas_cflags)
    then have "cflags (mapSet t ?i n') = cflags (tabs s) @ [(?i, False, ?i)]"
      using c i n by (simp add: mapSet_def cflags_def)
    then show "collapseInv (s\<lparr>tabs := mapSet t ?i n'\<rparr>)"
      using assms(1,2) fresh
      by (auto simp: collapseInv_cflags list_all_iff mapHas_cflags)
  qed
  show ?thesis
  proof (cases "truthyId (parentId node) \<and> mapHas (tabs s) (idStr (parentId node))")
    case True
    have "collapseInv (s\<lparr>tabs := mapSet (mapModify (tabs s) (idStr (parentId node))
              (\<lambda>p. p\<lparr>childIds := childIds p @ [?i]\<rparr>)) ?i
              (node\<lparr>level := levelOf (mapModify (tabs s) (idStr (parentId node))
              (\<lambda>p. p\<lparr>childIds := childIds p @ [?i]\<rparr>)) (idStr (parentId node)) + 1\<rparr>)\<rparr>)"
      by (rule app) (simp_all add: cflags_mapModify assms(3))
    then show ?thesis unfolding insertNode_def if_P [OF True] by (simp add: Let_def)
  next
    case False
    have "collapseInv (s\<lparr>tabs := mapSet (tabs s) ?i (node\<lparr>parentId := None\<rparr>)\<rparr>)"
      by (rule app) (simp_all add: assms(3))
    then have "collapseInv (s\<lparr>tabs := mapSet (tabs s) ?i (node\<lparr>parentId := None\<rparr>),
                              roots := roots s @ [?i]\<rparr>)"
      by (simp add: collapseInv_roots_update)
    then show ?thesis unfolding insertNode_def if_not_P [OF False] by simp
  qed
qed

lemma promote_for_flags:
  "promote_for f i node cs s = Some s'
   \<Longrightarrow> cflags (tabs s') = cflags (tabs s) \<and> collapsedSet s' = collapsedSet s"
proof (induction cs arbitrary: s)
  case Nil
  then show ?case by simp
next
  case (Cons c cs)
  show ?case
  proof (cases "map_of (tabs s) c")
    case None
    then show ?thesis using Cons by simp
  next
    case (Some child)
    let ?t1 = "mapModify (tabs s) c (\<lambda>c. c\<lparr>parentId := parentId node, level := level node\<rparr>)"
    from Cons.prems Some obtain t2 where u: "updateChildLevels f ?t1 c = Some t2"
      by (auto split: option.splits)
    have t2: "cflags t2 = cflags (tabs s)"
      using cflags_updateChildLevels(1) [OF u] by (simp add: cflags_mapModify)
    show ?thesis
    proof (cases "truthyId (parentId node)")
      case True
      with Cons.prems Some u have ne: "idStr (parentId node) \<noteq> i"
        by (auto split: if_splits)
      let ?s1 = "s\<lparr>tabs := mapModify t2 (idStr (parentId node))
                             (\<lambda>g. g\<lparr>childIds := childIds g @ [c]\<rparr>)\<rparr>"
      have "promote_for f i node cs ?s1 = Some s'"
        using Cons.prems Some u True ne by simp
      from Cons.IH [OF this] show ?thesis by (simp add: cflags_mapModify t2)
    next
      case False
      let ?s1 = "s\<lparr>tabs := t2, roots := (if c \<in> set (roots s) then roots s else roots s @ [c])\<rparr>"
      have "promote_for f i node cs ?s1 = Some s'"
        using Cons.prems Some u False by simp
      from Cons.IH [OF this] show ?thesis by (simp add: t2)
    qed
  qed
qed

lemma cflags_mapDelete: "cflags (mapDelete t i) = filter (\<lambda>x. fst x \<noteq> i) (cflags t)"
  by (induction t) (auto simp: cflags_def mapDelete_def)

lemma collapseInv_delete:
  assumes "collapseInv s"
  shows "collapseInv (s\<lparr>collapsedSet := setDelete (collapsedSet s) i, tabs := mapDelete (tabs s) i\<rparr>)"
  using assms
  by (auto simp: collapseInv_cflags cflags_mapDelete setDelete_def list_all_iff distinct_map_filter)

lemma collapseInv_removeNodeFromTree:
  assumes "collapseInv s" and "removeNodeFromTree f s i b = Some s'"
  shows "collapseInv s'"
proof (cases "map_of (tabs s) i")
  case None
  then show ?thesis using assms by (simp add: removeNodeFromTree_def)
next
  case (Some node)
  from assms(2) Some obtain s1 where
    p: "(if b then promote_for f i node (childIds node) s else Some s) = Some s1"
    by (auto simp: removeNodeFromTree_def split: option.splits)
  have "cflags (tabs s1) = cflags (tabs s) \<and> collapsedSet s1 = collapsedSet s"
    using p promote_for_flags by (cases b) auto
  then have i1: "collapseInv s1" using assms(1) collapseInv_cong by blast
  let ?s2 = "(if truthyId (parentId node) then
               s1\<lparr>tabs := mapModify (tabs s1) (idStr (parentId node))
                             (\<lambda>p. p\<lparr>childIds := remove1 i (childIds p)\<rparr>)\<rparr>
             else s1\<lparr>roots := remove1 i (roots s1)\<rparr>)"
  have i2: "collapseInv ?s2"
    using i1 by (simp add: collapseInv_tabs_update collapseInv_roots_update cflags_mapModify)
  have "s' = ?s2\<lparr>collapsedSet := setDelete (collapsedSet ?s2) i, tabs := mapDelete (tabs ?s2) i\<rparr>"
    using assms(2) Some p by (simp add: removeNodeFromTree_def Let_def)
  then show ?thesis using collapseInv_delete [OF i2] by simp
qed

lemma cflags_collapsed_update:
  "cflags (mapModify t i (\<lambda>n. n\<lparr>collapsed := b\<rparr>)) =
     map (\<lambda>x. if fst x = i then (fst x, b, snd (snd x)) else x) (cflags t)"
  by (induction t) (auto simp: cflags_def mapModify_def)

lemma fst_collapsed_update:
  "(\<lambda>x. fst (if fst x = i then (fst x, b, snd (snd x)) else x)) = fst"
  by auto

lemma collapseInv_collapseNode:
  assumes "collapseInv s" and "mapHas (tabs s) i"
  shows "collapseInv (collapseNode s i)"
  using assms
  by (auto simp: collapseInv_cflags collapseNode_def cflags_collapsed_update setAdd_def
      list_all_iff mapHas_cflags comp_def image_iff fst_collapsed_update)

lemma collapseInv_expandNode:
  assumes "collapseInv s"
  shows "collapseInv (s\<lparr>tabs := mapModify (tabs s) i (\<lambda>n. n\<lparr>collapsed := False\<rparr>),
                         collapsedSet := setDelete (collapsedSet s) i\<rparr>)"
  using assms
  by (auto simp: collapseInv_cflags cflags_collapsed_update setDelete_def
      list_all_iff comp_def image_iff fst_collapsed_update)

lemma map_of_mapHas: "map_of t k = Some n \<Longrightarrow> mapHas t k"
  by (auto simp: mapHas_def dest: map_of_SomeD intro: rev_image_eqI)

lemma collapseInv_autoCollapse_loop:
  "collapseInv s \<Longrightarrow>
   collapseInv (foldl (\<lambda>s' siblingId.
                       if siblingId \<noteq> x then
                         (case map_of (tabs s') siblingId of
                            None \<Rightarrow> s'
                          | Some sibling \<Rightarrow>
                              if childIds sibling \<noteq> [] then collapseNode s' siblingId else s')
                       else s') s ids)"
proof (induction ids arbitrary: s)
  case Nil
  then show ?case by simp
next
  case (Cons a ids)
  show ?case
    unfolding foldl_Cons
    by (rule Cons.IH)
       (auto simp: Cons.prems collapseInv_collapseNode map_of_mapHas split: option.splits)
qed

lemma collapseInv_autoCollapseSiblings:
  "collapseInv s \<Longrightarrow> collapseInv (autoCollapseSiblings s x)"
  unfolding autoCollapseSiblings_def Let_def
  by (cases "map_of (tabs s) x") (simp_all add: collapseInv_autoCollapse_loop)

lemma collapseInv_toggleCollapsed:
  assumes "collapseInv s"
  shows "collapseInv (toggleCollapsed prefs s i)"
proof (cases "map_of (tabs s) i")
  case None
  then show ?thesis using assms by (simp add: toggleCollapsed_def)
next
  case (Some node)
  then have h: "mapHas (tabs s) i" by (rule map_of_mapHas)
  show ?thesis
    using assms Some h
    by (simp add: toggleCollapsed_def Let_def collapseInv_collapseNode
        collapseInv_expandNode collapseInv_autoCollapseSiblings)
qed

lemma set_foldl_setAdd: "set (foldl setAdd xs ys) = set xs \<union> set ys"
  by (induction ys arbitrary: xs) (auto simp: setAdd_def)

lemma collapseInv_collapseAll:
  assumes "collapseInv s"
  shows "collapseInv (collapseAll s)"
proof -
  have own: "\<And>e. e \<in> set (tabs s) \<Longrightarrow> id_n (snd e) = fst e"
    using assms by (auto simp: collapseInv_def ownIds_def list_all_iff)
  have dist: "distinct (map fst (tabs s))"
    using assms by (simp add: collapseInv_def)
  have uniq: "\<And>e e'. e \<in> set (tabs s) \<Longrightarrow> e' \<in> set (tabs s) \<Longrightarrow> fst e = fst e' \<Longrightarrow> e = e'"
    using dist by (metis eq_key_imp_eq_value prod.collapse)
  have keys: "map fst (tabs (collapseAll s)) = map fst (tabs s)"
    by (simp add: collapseAll_def comp_def cong: map_cong if_cong)
  have cs: "set (collapsedSet (collapseAll s)) =
      set (collapsedSet s) \<union> fst ` {e \<in> set (tabs s). childIds (snd e) \<noteq> []}"
    using own by (auto simp: collapseAll_def set_foldl_setAdd image_iff)
  have 1: "lockstep (collapseAll s)"
    unfolding lockstep_def list_all_iff
  proof
    fix e assume "e \<in> set (tabs (collapseAll s))"
    then have "e \<in> (\<lambda>e. if childIds (snd e) \<noteq> [] then (fst e, (snd e)\<lparr>collapsed := True\<rparr>)
                         else e) ` set (tabs s)"
      by (simp add: collapseAll_def)
    then obtain e0 where e0: "e0 \<in> set (tabs s)"
      and e: "e = (if childIds (snd e0) \<noteq> [] then (fst e0, (snd e0)\<lparr>collapsed := True\<rparr>) else e0)"
      by (rule imageE)
    have old: "collapsed (snd e0) = (fst e0 \<in> set (collapsedSet s))"
      using assms e0 by (auto simp: collapseInv_def lockstep_def list_all_iff)
    show "collapsed (snd e) = (fst e \<in> set (collapsedSet (collapseAll s)))"
    proof (cases "childIds (snd e0) \<noteq> []")
      case True
      then show ?thesis using e e0 cs by auto
    next
      case False
      have "fst e0 \<notin> fst ` {e \<in> set (tabs s). childIds (snd e) \<noteq> []}"
      proof
        assume "fst e0 \<in> fst ` {e \<in> set (tabs s). childIds (snd e) \<noteq> []}"
        then obtain e1 where "e1 \<in> set (tabs s)" "childIds (snd e1) \<noteq> []" "fst e0 = fst e1"
          by auto
        then show False using uniq [OF e0, of e1] False by simp
      qed
      then show ?thesis using e False old cs by simp
    qed
  qed
  have 2: "collapsedLive (collapseAll s)"
    using assms cs keys
    by (auto simp: collapseInv_def collapsedLive_def list_all_iff mapHas_def)
  have 3: "ownIds (tabs (collapseAll s))"
    using own by (auto simp: ownIds_def list_all_iff collapseAll_def)
  show ?thesis
    using 1 2 3 dist keys by (simp add: collapseInv_def)
qed

lemma collapseInv_expandAll:
  assumes "collapseInv s"
  shows "collapseInv (expandAll s)"
  using assms
  by (auto simp: collapseInv_def lockstep_def collapsedLive_def ownIds_def list_all_iff
      expandAll_def comp_def)

lemma cflags_relink: 
  "cflags (tabs (relink s i tab p)) = cflags (tabs s) \<and> collapsedSet (relink s i tab p) = collapsedSet s"
  by (simp add: relink_def Let_def cflags_mapModify)

lemma collapseInv_attachTabTo:
  assumes "collapseInv s" and "attachTabTo f s i p = Some s'"
  shows "collapseInv s'"
proof (cases "map_of (tabs s) i")
  case None
  then show ?thesis using assms by (simp add: attachTabTo_def)
next
  case (Some tab)
  show ?thesis
  proof (cases "s' = s")
    case True
    then show ?thesis using assms(1) by simp
  next
    case False
    with assms(2) Some obtain t' where
      u: "updateChildLevels f (tabs (relink s i tab p)) i = Some t'" and
      s': "s' = (relink s i tab p)\<lparr>tabs := t'\<rparr>"
      by (auto simp: attachTabTo_def Let_def split: option.splits if_splits)
    have "cflags t' = cflags (tabs s)"
      using cflags_updateChildLevels(1) [OF u] cflags_relink by simp
    then show ?thesis
      using assms(1) s' cflags_relink collapseInv_cong [of s' s] by simp
  qed
qed

text \<open>
  The operations of the manager keep the flag and the set together. In every state that
  node creation, node removal, \<open>toggleCollapsed\<close> (with
  its auto-collapse of siblings), \<open>collapseAll\<close>, \<open>expandAll\<close> and \<open>attachTabTo\<close>
  reach from the empty state, the collapsed flag of each node is true exactly when its id
  is in the collapsed set.
\<close>

lemma collapsed_flag_lockstep: "engineReachable s \<Longrightarrow> lockstep s"
proof -
  assume "engineReachable s"
  then have "collapseInv s"
  proof (induction rule: engineReachable.induct)
    case Empty
    show ?case by (rule collapseInv_empty)
  next
    case (AddTab s i ttl ty p)
    then show ?case
      by (simp add: addTab_def collapseInv_insertNode newNode_def)
  next
    case (CreateGroup s i ttl p)
    then show ?case
      by (simp add: createGroup_def collapseInv_insertNode newNode_def)
  next
    case (RemoveTab s f prefs i s')
    then show ?case
      unfolding removeTabFromTree_def by (blast intro: collapseInv_removeNodeFromTree)
  next
    case (RemoveGroup s f i s')
    then show ?case
      unfolding removeGroup_def by (blast intro: collapseInv_removeNodeFromTree)
  next
    case (Toggle s prefs i)
    then show ?case by (simp add: collapseInv_toggleCollapsed)
  next
    case (CollapseAll s)
    then show ?case by (simp add: collapseInv_collapseAll)
  next
    case (ExpandAll s)
    then show ?case by (simp add: collapseInv_expandAll)
  next
    case (Attach s f i p s')
    then show ?case by (blast intro: collapseInv_attachTabTo)
  qed
  then show "lockstep s" by (simp add: collapseInv_def)
qed

lemma collapsed_flag_lockstep_witness:
  "engineReachable (toggleCollapsed noPrefs stateAB ''a'')
   \<and> collapsedSet (toggleCollapsed noPrefs stateAB ''a'') = [''a'']
   \<and> lockstep (toggleCollapsed noPrefs stateAB ''a'')"
proof -
  have "engineReachable stateAB"
    unfolding stateAB_def
    by (intro engineReachable.intros) (simp_all add: emptyState_def mapHas_def addTab_def
        insertNode_def newNode_def truthyId_def mapSet_def)
  then have r: "engineReachable (toggleCollapsed noPrefs stateAB ''a'')"
    by (rule engineReachable.Toggle)
  have c: "collapsedSet (toggleCollapsed noPrefs stateAB ''a'') = [''a'']"
    by (simp add: toggleCollapsed_def stateAB_def collapseNode_def setAdd_def emptyState_def
        addTab_def insertNode_def newNode_def truthyId_def truthy_def idStr_def mapSet_def
        mapHas_def mapModify_def levelOf_def Let_def)
  from collapsed_flag_lockstep [OF r] r c show ?thesis by simp
qed

subsection \<open>Entry-wise changes of the store\<close>

lemma mapHas_map_of: "mapHas t k = (map_of t k \<noteq> None)"
  by (simp add: mapHas_def map_of_eq_None_iff)

lemma mapModify_emap: "mapModify t k f = emap (\<lambda>k' n. if k' = k then f n else n) t"
  by (simp add: mapModify_def emap_def cong: if_cong)

lemma emap_emap: "emap h (emap g t) = emap (\<lambda>k n. h k (g k n)) t"
  by (simp add: emap_def comp_def)

lemma emap_cong: "(\<And>k n. (k, n) \<in> set t \<Longrightarrow> h k n = g k n) \<Longrightarrow> emap h t = emap g t"
  by (auto simp: emap_def)

lemma emap_id: "(\<And>k n. (k, n) \<in> set t \<Longrightarrow> h k n = n) \<Longrightarrow> emap h t = t"
  by (induction t) (auto simp: emap_def)

lemma map_fst_emap: "map fst (emap h t) = map fst t"
  by (simp add: emap_def comp_def)

lemma map_of_emap: "map_of (emap h t) k = map_option (h k) (map_of t k)"
  by (induction t) (auto simp: emap_def)


lemma mapHas_keys: "map fst t = map fst t0 \<Longrightarrow> mapHas t k = mapHas t0 k"
  by (simp add: mapHas_def)

lemma relevel_relevel: "relevel L V (relevel L W t) = relevel L (V \<union> W) t"
  unfolding relevel_def emap_emap by (rule emap_cong) auto

lemma relevel_empty: "relevel L {} t = t"
  unfolding relevel_def by (rule emap_id) simp

lemma map_fst_relevel: "map fst (relevel L V t) = map fst t"
  by (simp add: relevel_def map_fst_emap)

lemma cids_relevel: "cids (relevel L V t) k = cids t k"
  by (simp add: cids_def relevel_def map_of_emap split: option.splits)

lemma levelOf_relevel:
  "mapHas t k \<Longrightarrow> levelOf (relevel L V t) k = (if k \<in> V then L k else levelOf t k)"
  by (auto simp: levelOf_def relevel_def map_of_emap mapHas_map_of split: option.splits)

lemma set_level_relevel:
  "mapModify t c (\<lambda>n. n\<lparr>level := L c\<rparr>) = relevel L {c} t"
  unfolding mapModify_emap relevel_def by (rule emap_cong) auto

subsection \<open>What the level recomputation computes\<close>

lemma desc_unfold: "desc t p = (\<Union>c\<in>set (kids t p). insert c (desc t c))"
proof
  show "desc t p \<subseteq> (\<Union>c\<in>set (kids t p). insert c (desc t c))"
  proof
    fix x assume "x \<in> desc t p"
    then have "(p, x) \<in> (edges t)\<^sup>+" by (simp add: desc_def)
    then show "x \<in> (\<Union>c\<in>set (kids t p). insert c (desc t c))"
      by (cases rule: converse_tranclE) (auto simp: edges_def desc_def)
  qed
  show "(\<Union>c\<in>set (kids t p). insert c (desc t c)) \<subseteq> desc t p"
    by (auto simp: desc_def edges_def intro: trancl_into_trancl2)
qed

lemma kids_missing: "\<not> mapHas t p \<Longrightarrow> kids t p = []"
  by (simp add: kids_def cids_def mapHas_map_of)

text \<open>
  Let \<open>t0\<close> be a reference store, \<open>S\<close> a set of keys closed under its child edges on
  which the level function \<open>L\<close> grows by one along every edge and \<open>r\<close> decreases. On a
  store with the keys of \<open>t0\<close> and its child lists on \<open>S\<close>, \<open>updateChildLevels\<close> from a
  key of \<open>S\<close> whose level is already \<open>L\<close> returns, given a depth above \<open>r\<close>, and sets the
  level of every descendant to \<open>L\<close>.
\<close>

lemma updateChildLevels_for_relevel:
  assumes IH: "\<And>t c. map fst t = map fst t0 \<Longrightarrow> (\<forall>k\<in>S. cids t k = cids t0 k) \<Longrightarrow> c \<in> S
                 \<Longrightarrow> (mapHas t c \<longrightarrow> levelOf t c = L c) \<Longrightarrow> r c < f
                 \<Longrightarrow> updateChildLevels f t c = Some (relevel L (desc t0 c) t)"
    and closed: "\<forall>k\<in>S. set (kids t0 k) \<subseteq> S"
    and cons: "\<forall>k\<in>S. \<forall>c\<in>set (kids t0 k). L c = L k + 1"
    and pS: "p \<in> S" and hasp: "mapHas t0 p"
    and small: "\<forall>c\<in>set (kids t0 p). r c < f"
  shows "map fst t = map fst t0 \<Longrightarrow> (\<forall>k\<in>S. cids t k = cids t0 k) \<Longrightarrow> levelOf t p = L p
         \<Longrightarrow> set rest \<subseteq> set (cids t0 p)
         \<Longrightarrow> updateChildLevels_for f t p rest =
               Some (relevel L (\<Union>c\<in>set (filter (mapHas t0) rest). insert c (desc t0 c)) t)"
proof (induction rest arbitrary: t)
  case Nil
  then show ?case by (simp add: relevel_empty)
next
  case (Cons c rest)
  have keys: "\<And>k. mapHas t k = mapHas t0 k" using Cons.prems(1) by (rule mapHas_keys)
  show ?case
  proof (cases "mapHas t0 c")
    case False
    then have "map_of t c = None" using keys [of c] by (auto simp: mapHas_map_of)
    moreover have "updateChildLevels_for f t p rest =
               Some (relevel L (\<Union>c\<in>set (filter (mapHas t0) rest). insert c (desc t0 c)) t)"
      using Cons.prems by (intro Cons.IH) auto
    ultimately show ?thesis using False by simp
  next
    case True
    then obtain child where child: "map_of t c = Some child"
      using keys by (auto simp: mapHas_map_of)
    have ckid: "c \<in> set (kids t0 p)" using Cons.prems(4) True by (simp add: kids_def)
    then have cS: "c \<in> S" using closed pS by auto
    have Lc: "L c = levelOf t p + 1" using cons pS ckid Cons.prems(3) by simp
    let ?t1 = "mapModify t c (\<lambda>n. n\<lparr>level := levelOf t p + 1\<rparr>)"
    have t1: "?t1 = relevel L {c} t" using set_level_relevel [of t c L] Lc by simp
    have u: "updateChildLevels f ?t1 c = Some (relevel L (desc t0 c) ?t1)"
    proof (rule IH)
      show "map fst ?t1 = map fst t0" unfolding t1 using Cons.prems(1) by (simp add: map_fst_relevel)
      show "\<forall>k\<in>S. cids ?t1 k = cids t0 k" unfolding t1 using Cons.prems(2) by (simp add: cids_relevel)
      show "c \<in> S" by (rule cS)
      show "mapHas ?t1 c \<longrightarrow> levelOf ?t1 c = L c"
        unfolding t1 using True keys by (simp add: levelOf_relevel)
      show "r c < f" using small ckid by simp
    qed
    let ?t2 = "relevel L (insert c (desc t0 c)) t"
    have t2: "relevel L (desc t0 c) ?t1 = ?t2" unfolding t1 by (simp add: relevel_relevel)
    have hp: "mapHas t p" using hasp keys by simp
    have "updateChildLevels_for f ?t2 p rest =
               Some (relevel L (\<Union>c\<in>set (filter (mapHas t0) rest). insert c (desc t0 c)) ?t2)"
    proof (rule Cons.IH)
      show "map fst ?t2 = map fst t0" using Cons.prems(1) by (simp add: map_fst_relevel)
      show "\<forall>k\<in>S. cids ?t2 k = cids t0 k" using Cons.prems(2) by (simp add: cids_relevel)
      show "levelOf ?t2 p = L p" using hp Cons.prems(3) by (simp add: levelOf_relevel)
      show "set rest \<subseteq> set (cids t0 p)" using Cons.prems(4) by simp
    qed
    then show ?thesis
      using child u t2 True by (simp add: relevel_relevel Un_commute)
  qed
qed

lemma updateChildLevels_relevel:
  assumes closed: "\<forall>k\<in>S. set (kids t0 k) \<subseteq> S"
    and cons: "\<forall>k\<in>S. \<forall>c\<in>set (kids t0 k). L c = L k + 1"
    and rank: "\<forall>k\<in>S. \<forall>c\<in>set (kids t0 k). r c < r k"
  shows "map fst t = map fst t0 \<Longrightarrow> (\<forall>k\<in>S. cids t k = cids t0 k) \<Longrightarrow> p \<in> S
         \<Longrightarrow> (mapHas t p \<longrightarrow> levelOf t p = L p) \<Longrightarrow> r p < f
         \<Longrightarrow> updateChildLevels f t p = Some (relevel L (desc t0 p) t)"
proof (induction f arbitrary: t p)
  case 0
  then show ?case by simp
next
  case (Suc f)
  have keys: "\<And>k. mapHas t k = mapHas t0 k" using Suc.prems(1) by (rule mapHas_keys)
  show ?case
  proof (cases "map_of t p")
    case None
    then have "\<not> mapHas t0 p" using keys [of p] by (simp add: mapHas_map_of)
    then have "desc t0 p = {}" using desc_unfold [of t0 p] by (simp add: kids_missing)
    then show ?thesis using None by (simp add: relevel_empty)
  next
    case (Some parent)
    then have hp: "mapHas t p" by (simp add: mapHas_map_of)
    have c: "childIds parent = cids t0 p"
      using Suc.prems(2,3) Some by (auto simp: cids_def)
    have "updateChildLevels_for f t p (cids t0 p) =
            Some (relevel L (\<Union>c\<in>set (filter (mapHas t0) (cids t0 p)). insert c (desc t0 c)) t)"
    proof (rule updateChildLevels_for_relevel [where S = S and r = r])
      show "\<forall>c\<in>set (kids t0 p). r c < f" using rank Suc.prems(3,5) by fastforce
      show "mapHas t0 p" using hp keys by simp
      show "levelOf t p = L p" using hp Suc.prems(4) by simp
    qed (use Suc closed cons in auto)
    moreover have "(\<Union>c\<in>set (filter (mapHas t0) (cids t0 p)). insert c (desc t0 c)) = desc t0 p"
      using desc_unfold [of t0 p] by (simp add: kids_def)
    ultimately show ?thesis using Some c by simp
  qed
qed

subsection \<open>Consequences of validity\<close>

lemma level_le_maxLevel: "(k, n) \<in> set t \<Longrightarrow> level n \<le> maxLevel t"
  by (induction t) (auto simp: maxLevel_def)

lemma levelOf_le_maxLevel: "levelOf t k \<le> maxLevel t"
  by (auto simp: levelOf_def split: option.splits dest!: map_of_SomeD level_le_maxLevel)

lemma vt_distinct: "validTree s \<Longrightarrow> distinct (map fst (tabs s))"
  by (simp add: validTree_def)

lemma nodeAtD: "nodeAt t k P \<Longrightarrow> \<exists>n. map_of t k = Some n \<and> P n"
  by (auto simp: nodeAt_def split: option.splits)

lemma vt_child:
  assumes "validTree s" and "map_of (tabs s) k = Some n" and "c \<in> set (childIds n)"
  shows "\<exists>m. map_of (tabs s) c = Some m \<and> parentId m = Some k \<and> level m = level n + 1"
proof -
  have e: "(k, n) \<in> set (tabs s)" using assms(2) by (rule map_of_SomeD)
  have "list_all (\<lambda>e. distinct (childIds (snd e))
                     \<and> list_all (\<lambda>c. nodeAt (tabs s) c
                                        (\<lambda>m. parentId m = Some (fst e)
                                              \<and> level m = level (snd e) + 1))
                           (childIds (snd e))) (tabs s)"
    using assms(1) unfolding validTree_def by blast
  then have "nodeAt (tabs s) c (\<lambda>m. parentId m = Some k \<and> level m = level n + 1)"
    using e assms(3) unfolding list_all_iff by fastforce
  then show ?thesis by (rule nodeAtD)
qed

lemma vt_distinct_childIds:
  assumes "validTree s" and "map_of (tabs s) k = Some n"
  shows "distinct (childIds n)"
proof -
  have e: "(k, n) \<in> set (tabs s)" using assms(2) by (rule map_of_SomeD)
  have "list_all (\<lambda>e. distinct (childIds (snd e))
                     \<and> list_all (\<lambda>c. nodeAt (tabs s) c
                                        (\<lambda>m. parentId m = Some (fst e)
                                              \<and> level m = level (snd e) + 1))
                           (childIds (snd e))) (tabs s)"
    using assms(1) unfolding validTree_def by blast
  then show ?thesis using e unfolding list_all_iff by fastforce
qed

lemma vt_root:
  assumes "validTree s" and "r \<in> set (roots s)"
  shows "\<exists>n. map_of (tabs s) r = Some n \<and> parentId n = None \<and> level n = 0"
proof -
  have "list_all (\<lambda>r. nodeAt (tabs s) r (\<lambda>n. parentId n = None \<and> level n = 0)) (roots s)"
    using assms(1) unfolding validTree_def by blast
  then have "nodeAt (tabs s) r (\<lambda>n. parentId n = None \<and> level n = 0)"
    using assms(2) unfolding list_all_iff by blast
  then show ?thesis by (rule nodeAtD)
qed

lemma vt_parent:
  assumes "validTree s" and "map_of (tabs s) k = Some n"
  shows "case parentId n of
           None \<Rightarrow> k \<in> set (roots s)
         | Some p \<Rightarrow> \<exists>pn. map_of (tabs s) p = Some pn \<and> k \<in> set (childIds pn)"
proof -
  have e: "(k, n) \<in> set (tabs s)" using assms(2) by (rule map_of_SomeD)
  have "list_all (\<lambda>e. case parentId (snd e) of
                          None \<Rightarrow> fst e \<in> set (roots s)
                        | Some p \<Rightarrow> nodeAt (tabs s) p (\<lambda>n. fst e \<in> set (childIds n)))
            (tabs s)"
    using assms(1) unfolding validTree_def by blast
  then have "\<forall>e\<in>set (tabs s). case parentId (snd e) of
                          None \<Rightarrow> fst e \<in> set (roots s)
                        | Some p \<Rightarrow> nodeAt (tabs s) p (\<lambda>n. fst e \<in> set (childIds n))"
    unfolding list_all_iff .
  from bspec [OF this e]
  have "case parentId n of None \<Rightarrow> k \<in> set (roots s)
             | Some p \<Rightarrow> nodeAt (tabs s) p (\<lambda>pn. k \<in> set (childIds pn))"
    by (cases "parentId n") simp_all
  then show ?thesis by (cases "parentId n") (auto dest: nodeAtD)
qed

lemma cids_SomeD: "c \<in> set (cids t k) \<Longrightarrow> \<exists>n. map_of t k = Some n \<and> c \<in> set (childIds n)"
  by (cases "map_of t k") (simp_all add: cids_def)

lemma kids_SomeD:
  "c \<in> set (kids t k) \<Longrightarrow> \<exists>n. map_of t k = Some n \<and> c \<in> set (childIds n) \<and> mapHas t c"
  by (auto simp: kids_def dest: cids_SomeD)

lemma vt_kids: "validTree s \<Longrightarrow> kids (tabs s) k = cids (tabs s) k"
  unfolding kids_def
proof (rule filter_True, rule ballI)
  fix c assume v: "validTree s" and c: "c \<in> set (cids (tabs s) k)"
  then obtain n where n: "map_of (tabs s) k = Some n" and cn: "c \<in> set (childIds n)"
    by (auto dest: cids_SomeD)
  from vt_child [OF v n cn] show "mapHas (tabs s) c" by (auto simp: mapHas_map_of)
qed

lemma vt_edge_level:
  assumes "validTree s" and "c \<in> set (kids (tabs s) k)"
  shows "levelOf (tabs s) c = levelOf (tabs s) k + 1"
proof -
  from assms(2) obtain n where n: "map_of (tabs s) k = Some n" and cn: "c \<in> set (childIds n)"
    by (auto dest: kids_SomeD)
  from vt_child [OF assms(1) n cn] n show ?thesis by (auto simp: levelOf_def)
qed

lemma vt_rank:
  assumes "validTree s" and "c \<in> set (kids (tabs s) k)"
  shows "maxLevel (tabs s) - levelOf (tabs s) c < maxLevel (tabs s) - levelOf (tabs s) k"
  using vt_edge_level [OF assms] levelOf_le_maxLevel [of "tabs s" c] by simp

lemma desc_step: "x \<in> insert p (desc t p) \<Longrightarrow> c \<in> set (kids t x) \<Longrightarrow> c \<in> desc t p"
  by (auto simp: desc_def edges_def intro: trancl_into_trancl)

lemma vt_all_fromRoots:
  assumes v: "validTree s"
  shows "map_of (tabs s) k = Some n \<Longrightarrow> k \<in> fromRoots s"
proof (induction "level n" arbitrary: k n rule: less_induct)
  case less
  show ?case
  proof (cases "parentId n")
    case None
    then have "k \<in> set (roots s)" using vt_parent [OF v less.prems] by simp
    then show ?thesis using less.prems by (auto simp: fromRoots_def mapHas_map_of)
  next
    case (Some p)
    then obtain pn where pn: "map_of (tabs s) p = Some pn" and k: "k \<in> set (childIds pn)"
      using vt_parent [OF v less.prems] by auto
    have "level n = level pn + 1" using vt_child [OF v pn k] less.prems by simp
    then have "p \<in> fromRoots s" using less.hyps [OF _ pn] by simp
    then obtain r where r: "r \<in> set (filter (mapHas (tabs s)) (roots s))"
      and p: "p \<in> insert r (desc (tabs s) r)"
      by (auto simp: fromRoots_def)
    have "k \<in> set (kids (tabs s) p)"
      using pn k less.prems by (simp add: kids_def cids_def mapHas_map_of)
    then have "k \<in> desc (tabs s) r" using p by (rule desc_step [rotated])
    then show ?thesis using r unfolding fromRoots_def by blast
  qed
qed

subsection \<open>Saving and loading\<close>

lemma recalculateLevels_for_relevel:
  assumes closed: "\<forall>k\<in>S. set (kids t0 k) \<subseteq> S"
    and cons: "\<forall>k\<in>S. \<forall>c\<in>set (kids t0 k). L c = L k + 1"
    and rank: "\<forall>k\<in>S. \<forall>c\<in>set (kids t0 k). r c < r k"
  shows "map fst t = map fst t0 \<Longrightarrow> (\<forall>k\<in>S. cids t k = cids t0 k)
         \<Longrightarrow> (\<forall>x\<in>set rs. x \<in> S \<and> (mapHas t0 x \<longrightarrow> L x = 0) \<and> r x < f)
         \<Longrightarrow> recalculateLevels_for f t rs =
               Some (relevel L (\<Union>x\<in>set (filter (mapHas t0) rs). insert x (desc t0 x)) t)"
proof (induction rs arbitrary: t)
  case Nil
  then show ?case by (simp add: relevel_empty)
next
  case (Cons x rs)
  have keys: "\<And>k. mapHas t k = mapHas t0 k" using Cons.prems(1) by (rule mapHas_keys)
  show ?case
  proof (cases "mapHas t0 x")
    case False
    then have "map_of t x = None" using keys [of x] by (auto simp: mapHas_map_of)
    moreover have "recalculateLevels_for f t rs =
               Some (relevel L (\<Union>x\<in>set (filter (mapHas t0) rs). insert x (desc t0 x)) t)"
      using Cons.prems by (intro Cons.IH) auto
    ultimately show ?thesis using False by simp
  next
    case True
    then obtain root where root: "map_of t x = Some root"
      using keys [of x] by (auto simp: mapHas_map_of)
    have L0: "L x = 0" using Cons.prems(3) True by simp
    let ?t1 = "mapModify t x (\<lambda>n. n\<lparr>level := 0\<rparr>)"
    have t1: "?t1 = relevel L {x} t" using set_level_relevel [of t x L] L0 by simp
    have u: "updateChildLevels f ?t1 x = Some (relevel L (desc t0 x) ?t1)"
    proof (rule updateChildLevels_relevel [OF closed cons rank])
      show "map fst ?t1 = map fst t0" unfolding t1 using Cons.prems(1) by (simp add: map_fst_relevel)
      show "\<forall>k\<in>S. cids ?t1 k = cids t0 k" unfolding t1 using Cons.prems(2) by (simp add: cids_relevel)
      show "x \<in> S" using Cons.prems(3) by simp
      show "mapHas ?t1 x \<longrightarrow> levelOf ?t1 x = L x"
        unfolding t1 using True keys by (simp add: levelOf_relevel)
      show "r x < f" using Cons.prems(3) by simp
    qed
    let ?t2 = "relevel L (insert x (desc t0 x)) t"
    have t2: "relevel L (desc t0 x) ?t1 = ?t2" unfolding t1 by (simp add: relevel_relevel)
    have "recalculateLevels_for f ?t2 rs =
               Some (relevel L (\<Union>x\<in>set (filter (mapHas t0) rs). insert x (desc t0 x)) ?t2)"
    proof (rule Cons.IH)
      show "map fst ?t2 = map fst t0" using Cons.prems(1) by (simp add: map_fst_relevel)
      show "\<forall>k\<in>S. cids ?t2 k = cids t0 k" using Cons.prems(2) by (simp add: cids_relevel)
      show "\<forall>x\<in>set rs. x \<in> S \<and> (mapHas t0 x \<longrightarrow> L x = 0) \<and> r x < f" using Cons.prems(3) by simp
    qed
    then show ?thesis
      using root u t2 True by (simp add: relevel_relevel Un_commute)
  qed
qed

lemma foldl_setAdd_distinct: "distinct (acc @ xs) \<Longrightarrow> foldl setAdd acc xs = acc @ xs"
  by (induction xs arbitrary: acc) (auto simp: setAdd_def)

lemma foldl_loadTab:
  "distinct (map fst acc @ map fst t) \<Longrightarrow> ownIds t
   \<Longrightarrow> foldl loadTab acc (map toTabData t) = acc @ emap (\<lambda>k. persisted) t"
proof (induction t arbitrary: acc)
  case Nil
  then show ?case by (simp add: emap_def)
next
  case (Cons e t)
  have fresh: "\<not> mapHas acc (fst e)" using Cons.prems(1) by (auto simp: mapHas_def)
  have own: "id_n (snd e) = fst e" using Cons.prems(2) by (simp add: ownIds_def)
  have 1: "loadTab acc (toTabData e) = acc @ [(fst e, persisted (snd e))]"
    using fresh own by (simp add: loadTab_def toTabData_def mapSet_def persisted_def)
  have "foldl loadTab (acc @ [(fst e, persisted (snd e))]) (map toTabData t)
          = (acc @ [(fst e, persisted (snd e))]) @ emap (\<lambda>k. persisted) t"
    using Cons.prems by (intro Cons.IH) (auto simp: ownIds_def)
  then show ?case using 1 by (simp add: emap_def)
qed

lemma load_save:
  assumes "distinct (map fst (tabs s))" and "ownIds (tabs s)" and "distinct (collapsedSet s)"
  shows "loadTreeStructure emptyState (Some (saveTreeStructure s)) =
           s\<lparr>tabs := emap (\<lambda>k. persisted) (tabs s), lastActiveTabId := None\<rparr>"
proof -
  have "saveTreeStructure s = \<lparr>doc_version = Some 1, doc_tabs = Some (map toTabData (tabs s)),
          doc_roots = Some (roots s), doc_collapsed = Some (collapsedSet s)\<rparr>"
    by (simp add: saveTreeStructure_def toTabData_def)
  then show ?thesis
    using foldl_loadTab [of "[]" "tabs s"] foldl_setAdd_distinct [of "[]" "collapsedSet s"] assms
    by (simp add: loadTreeStructure_def emptyState_def)
qed

lemma cids_emap: "(\<And>k n. childIds (h k n) = childIds n) \<Longrightarrow> cids (emap h t) k = cids t k"
  by (simp add: cids_def map_of_emap split: option.splits)

lemma recalculate_persisted:
  assumes v: "validTree s" and f: "maxLevel (tabs s) < f"
  shows "recalculateLevels_for f (emap (\<lambda>k. persisted) (tabs s)) (roots s) =
           Some (emap (\<lambda>k n. n\<lparr>selected := False\<rparr>) (tabs s))"
proof -
  let ?ref = "tabs s"
  let ?L = "levelOf ?ref"
  let ?r = "\<lambda>k. maxLevel ?ref - levelOf ?ref k"
  let ?t = "emap (\<lambda>k. persisted) ?ref"
  have "recalculateLevels_for f ?t (roots s) =
          Some (relevel ?L (\<Union>x\<in>set (filter (mapHas ?ref) (roots s)). insert x (desc ?ref x)) ?t)"
  proof (rule recalculateLevels_for_relevel [where S = UNIV and r = ?r and ?t0.0 = ?ref])
    show "\<forall>k\<in>UNIV. \<forall>c\<in>set (kids ?ref k). ?L c = ?L k + 1"
      using vt_edge_level [OF v] by simp
    show "\<forall>k\<in>UNIV. \<forall>c\<in>set (kids ?ref k). ?r c < ?r k"
      using vt_rank [OF v] by simp
    show "map fst ?t = map fst ?ref" by (rule map_fst_emap)
    show "\<forall>k\<in>UNIV. cids ?t k = cids ?ref k" by (simp add: cids_emap persisted_def)
    show "\<forall>x\<in>set (roots s). x \<in> UNIV \<and> (mapHas ?ref x \<longrightarrow> ?L x = 0) \<and> ?r x < f"
      using vt_root [OF v] f by (fastforce simp: levelOf_def)
  qed simp
  moreover have "relevel ?L (fromRoots s) ?t = emap (\<lambda>k n. n\<lparr>selected := False\<rparr>) ?ref"
    unfolding relevel_def emap_emap
  proof (rule emap_cong)
    fix k n assume "(k, n) \<in> set ?ref"
    then have n: "map_of ?ref k = Some n" using vt_distinct [OF v] by simp
    then have "k \<in> fromRoots s" by (rule vt_all_fromRoots [OF v])
    moreover have "levelOf ?ref k = level n" using n by (simp add: levelOf_def)
    ultimately show "(if k \<in> fromRoots s then (persisted n)\<lparr>level := levelOf ?ref k\<rparr> else persisted n)
                       = n\<lparr>selected := False\<rparr>"
      by (simp add: persisted_def)
  qed
  ultimately show ?thesis by (simp add: fromRoots_def)
qed

text \<open>
  Claim C8. For a valid tree, loading the saved document into the empty state gives the
  same roots, the same collapsed set and the same store entries in the same order, each
  node with its parent, child list, collapsed flag, title, type and node type, with level 0
  and not selected. \<open>init\<close>, which recomputes the levels after the load, returns the
  levels of the saved tree.
\<close>

theorem save_load_round_trip:
  assumes "validTree s" and "maxLevel (tabs s) < f"
  shows "loadTreeStructure emptyState (Some (saveTreeStructure s)) =
           s\<lparr>tabs := map (\<lambda>e. (fst e, (snd e)\<lparr>level := 0, selected := False\<rparr>)) (tabs s),
             lastActiveTabId := None\<rparr>
         \<and> init f emptyState (Some (saveTreeStructure s)) =
           Some (s\<lparr>tabs := map (\<lambda>e. (fst e, (snd e)\<lparr>selected := False\<rparr>)) (tabs s),
                   lastActiveTabId := None\<rparr>)"
proof -
  have l: "loadTreeStructure emptyState (Some (saveTreeStructure s)) =
           s\<lparr>tabs := emap (\<lambda>k. persisted) (tabs s), lastActiveTabId := None\<rparr>"
    using assms(1) by (intro load_save) (simp_all add: validTree_def)
  show ?thesis
    unfolding init_def l recalculateLevels_def
    using recalculate_persisted [OF assms]
    by (simp add: emap_def persisted_def)
qed

lemma valid_treeABCD: "validTree treeABCD"
  by (simp add: validTree_def treeABCD_def newNode_def ownIds_def mapHas_def nodeAt_def)

lemma maxLevel_treeABCD: "maxLevel (tabs treeABCD) < 3"
  by (simp add: maxLevel_def treeABCD_def newNode_def)

theorem save_load_round_trip_witness:
  "validTree treeABCD \<and> maxLevel (tabs treeABCD) < 3
   \<and> init 3 emptyState (Some (saveTreeStructure treeABCD)) = Some treeABCD"
proof -
  have "s\<lparr>tabs := map (\<lambda>e. (fst e, (snd e)\<lparr>selected := False\<rparr>)) (tabs s),
           lastActiveTabId := None\<rparr> = s" if "s = treeABCD" for s
    unfolding that by (simp add: treeABCD_def newNode_def)
  then show ?thesis
    using save_load_round_trip [OF valid_treeABCD maxLevel_treeABCD]
      valid_treeABCD maxLevel_treeABCD
    by simp
qed

subsection \<open>The tree order\<close>




subsection \<open>The nodes of a depth-first order\<close>

lemma ownIds_map_of: "ownIds t \<Longrightarrow> map_of t k = Some n \<Longrightarrow> id_n n = k"
proof -
  assume o: "ownIds t" and "map_of t k = Some n"
  then have "(k, n) \<in> set t" by (intro map_of_SomeD)
  with o show ?thesis unfolding ownIds_def list_all_iff by fastforce
qed



subsection \<open>Paths in a valid tree\<close>

lemma vt_level_path:
  assumes v: "validTree s"
  shows "(a, b) \<in> (edges (tabs s))\<^sup>+ \<Longrightarrow> levelOf (tabs s) a < levelOf (tabs s) b"
proof (induction rule: trancl_induct)
  case (base y)
  then show ?case using vt_edge_level [OF v, of y a] by (simp add: edges_def)
next
  case (step y z)
  then show ?case using vt_edge_level [OF v, of z y] by (simp add: edges_def)
qed

lemma vt_one_parent:
  assumes v: "validTree s"
    and "(y, x) \<in> edges (tabs s)" and "(y', x) \<in> edges (tabs s)"
  shows "y = y'"
proof -
  from assms(2) obtain n where n: "map_of (tabs s) y = Some n" "x \<in> set (childIds n)"
    by (auto simp: edges_def dest: kids_SomeD)
  from assms(3) obtain n' where n': "map_of (tabs s) y' = Some n'" "x \<in> set (childIds n')"
    by (auto simp: edges_def dest: kids_SomeD)
  from vt_child [OF v n] vt_child [OF v n'] show ?thesis by auto
qed



lemma vt_not_own_desc: "validTree s \<Longrightarrow> k \<notin> desc (tabs s) k"
  using vt_level_path [of s k k] by (auto simp: desc_def)

lemma vt_ownIds: "validTree s \<Longrightarrow> ownIds (tabs s)"
  by (simp add: validTree_def)








subsection \<open>Descendants and visibility\<close>





subsection \<open>Removing a node and promoting its children\<close>

lemma vt_map_of_iff: "validTree s \<Longrightarrow> ((k, n) \<in> set (tabs s)) = (map_of (tabs s) k = Some n)"
  using vt_distinct [of s] by simp

lemma vt_no_empty_key: "validTree s \<Longrightarrow> map_of (tabs s) k = Some n \<Longrightarrow> k \<noteq> []"
  by (auto simp: validTree_def mapHas_map_of)

lemma vt_parent_Some:
  "validTree s \<Longrightarrow> map_of (tabs s) k = Some n \<Longrightarrow> parentId n = Some p
   \<Longrightarrow> \<exists>pn. map_of (tabs s) p = Some pn \<and> k \<in> set (childIds pn)"
  using vt_parent [of s k n] by simp

lemma vt_parent_None:
  "validTree s \<Longrightarrow> map_of (tabs s) k = Some n \<Longrightarrow> parentId n = None \<Longrightarrow> k \<in> set (roots s)"
  using vt_parent [of s k n] by simp

lemma vt_truthy_parent:
  assumes "validTree s" and "map_of (tabs s) k = Some n"
  shows "truthyId (parentId n) = (parentId n \<noteq> None)"
proof (cases "parentId n")
  case None
  then show ?thesis by (simp add: truthyId_def)
next
  case (Some p)
  then obtain pn where "map_of (tabs s) p = Some pn"
    using vt_parent_Some [OF assms] by blast
  then have "p \<noteq> []" by (rule vt_no_empty_key [OF assms(1)])
  then show ?thesis using Some by (simp add: truthyId_def truthy_def)
qed

lemma vt_desc_level:
  "validTree s \<Longrightarrow> x \<in> desc (tabs s) k \<Longrightarrow> levelOf (tabs s) k < levelOf (tabs s) x"
  by (simp add: desc_def vt_level_path)

lemma desc_closed: "k \<in> desc t p \<Longrightarrow> set (kids t k) \<subseteq> desc t p"
  by (auto simp: desc_def edges_def intro: trancl_into_trancl)

lemma kids_in_desc: "set (kids t p) \<subseteq> desc t p"
  by (auto simp: desc_def edges_def)

lemma vt_kids_node: "validTree s \<Longrightarrow> map_of (tabs s) k = Some n \<Longrightarrow> kids (tabs s) k = childIds n"
  by (simp add: vt_kids cids_def)

lemma promote_for_promoted:
  assumes v: "validTree s" and P: "map_of (tabs s) P = Some node"
    and f: "maxLevel (tabs s) < f"
  shows "done @ rest = childIds node \<Longrightarrow>
         promote_for f P node rest
           (s\<lparr>tabs := promoted node done (tabs s),
              roots := (if parentId node = None then roots s @ done else roots s)\<rparr>)
         = Some (s\<lparr>tabs := promoted node (done @ rest) (tabs s),
                   roots := (if parentId node = None then roots s @ done @ rest else roots s)\<rparr>)"
proof (induction rest arbitrary: "done")
  case Nil
  then show ?case by simp
next
  case (Cons c rest)
  let ?t0 = "tabs s"
  let ?L = "\<lambda>k. levelOf ?t0 k - 1"
  let ?r = "\<lambda>k. maxLevel ?t0 - levelOf ?t0 k"
  let ?S = "desc ?t0 P"
  let ?G = "promoted node done ?t0"
  let ?s = "s\<lparr>tabs := ?G, roots := (if parentId node = None then roots s @ done else roots s)\<rparr>"
  have kP: "kids ?t0 P = childIds node" using vt_kids_node [OF v P] .
  have cin: "c \<in> set (childIds node)" using Cons.prems by (metis in_set_conv_decomp)
  from vt_child [OF v P cin] obtain cn where
    cn: "map_of ?t0 c = Some cn" "parentId cn = Some P" "level cn = level node + 1" by auto
  have cS: "c \<in> ?S" using kids_in_desc [of ?t0 P] kP cin by auto
  have truthy: "truthyId (parentId node) = (parentId node \<noteq> None)"
    using vt_truthy_parent [OF v P] .
  have lev: "\<And>k n. (k, n) \<in> set ?t0 \<Longrightarrow> levelOf ?t0 k = level n"
    using vt_map_of_iff [OF v] by (simp add: levelOf_def)
  have notS: "g \<notin> ?S" if pg: "parentId node = Some g" for g
  proof
    assume "g \<in> ?S"
    then have "levelOf ?t0 P < levelOf ?t0 g" by (rule vt_desc_level [OF v])
    moreover obtain gn where "map_of ?t0 g = Some gn" "P \<in> set (childIds gn)"
      using vt_parent_Some [OF v P pg] by blast
    then have "levelOf ?t0 P = levelOf ?t0 g + 1"
      using vt_child [OF v, of g gn P] by (auto simp: levelOf_def)
    ultimately show False by simp
  qed
  have Gc: "map_of ?G c = Some (promoteNode node done ?t0 c cn)"
    using cn by (simp add: promoted_def map_of_emap)
  let ?t1 = "mapModify ?G c (\<lambda>c. c\<lparr>parentId := parentId node, level := level node\<rparr>)"
  have u: "updateChildLevels f ?t1 c = Some (relevel ?L (desc ?t0 c) ?t1)"
  proof (rule updateChildLevels_relevel [where S = ?S and r = ?r])
    show "\<forall>k\<in>?S. set (kids ?t0 k) \<subseteq> ?S" using desc_closed by blast
    show "\<forall>k\<in>?S. \<forall>c\<in>set (kids ?t0 k). ?L c = ?L k + 1"
    proof (intro ballI)
      fix k x assume "k \<in> ?S" "x \<in> set (kids ?t0 k)"
      then show "?L x = ?L k + 1"
        using vt_edge_level [OF v, of x k] vt_desc_level [OF v, of k P] by simp
    qed
    show "\<forall>k\<in>?S. \<forall>c\<in>set (kids ?t0 k). ?r c < ?r k" using vt_rank [OF v] by blast
    show "map fst ?t1 = map fst ?t0"
      by (simp add: mapModify_emap promoted_def map_fst_emap)
    show "\<forall>k\<in>?S. cids ?t1 k = cids ?t0 k"
      using notS by (auto simp: mapModify_emap promoted_def promoteNode_def cids_def map_of_emap
          split: option.splits)
    show "c \<in> ?S" by (rule cS)
    show "mapHas ?t1 c \<longrightarrow> levelOf ?t1 c = ?L c"
      using cn by (simp add: mapModify_emap promoted_def levelOf_def map_of_emap)
    show "?r c < f" using f by simp
  qed
  let ?t2 = "relevel ?L (desc ?t0 c) ?t1"
  have point: "(\<lambda>k n. if k \<in> desc ?t0 c
                  then (if k = c then (promoteNode node done ?t0 k n)
                                        \<lparr>parentId := parentId node, level := level node\<rparr>
                        else promoteNode node done ?t0 k n)\<lparr>level := levelOf ?t0 k - 1\<rparr>
                  else (if k = c then (promoteNode node done ?t0 k n)
                                        \<lparr>parentId := parentId node, level := level node\<rparr>
                        else promoteNode node done ?t0 k n)) k n
               = (promoteNode node (done @ [c]) ?t0 k n)
                   \<lparr>childIds := (if Some k = parentId node then childIds n @ done else childIds n)\<rparr>"
    if "(k, n) \<in> set ?t0" for k n
  proof -
    have "levelOf ?t0 k = level n" using that by (rule lev)
    moreover have "level node = level n - 1" if "k = c"
      using that \<open>(k, n) \<in> set ?t0\<close> cn vt_map_of_iff [OF v] by simp
    ultimately show ?thesis by (auto simp: promoteNode_def)
  qed
  have t2: "?t2 = emap (\<lambda>k n. (promoteNode node (done @ [c]) ?t0 k n)
                   \<lparr>childIds := (if Some k = parentId node then childIds n @ done else childIds n)\<rparr>) ?t0"
    unfolding mapModify_emap relevel_def promoted_def emap_emap
    by (rule emap_cong) (use point in simp)
  have cnew: "c \<notin> set (roots s @ done)"
  proof -
    have "c \<notin> set (roots s)" using vt_root [OF v, of c] cn by auto
    moreover have "distinct (done @ c # rest)"
      using vt_distinct_childIds [OF v P] Cons.prems by simp
    ultimately show ?thesis by simp
  qed
  show ?case
  proof (cases "parentId node")
    case None
    have "emap (\<lambda>k n. (promoteNode node (done @ [c]) ?t0 k n)
                   \<lparr>childIds := (if Some k = parentId node then childIds n @ done else childIds n)\<rparr>) ?t0
          = promoted node (done @ [c]) ?t0"
      unfolding promoted_def by (rule emap_cong) (simp add: promoteNode_def None)
    with t2 have "?t2 = promoted node (done @ [c]) ?t0" by (rule trans)
    then have "promote_for f P node (c # rest) ?s =
          promote_for f P node rest
            (s\<lparr>tabs := promoted node (done @ [c]) ?t0,
               roots := (if parentId node = None then roots s @ done @ [c] else roots s)\<rparr>)"
      using Gc u cnew None by (simp add: truthyId_def)
    also have "\<dots> = Some (s\<lparr>tabs := promoted node ((done @ [c]) @ rest) ?t0,
                  roots := (if parentId node = None then roots s @ (done @ [c]) @ rest else roots s)\<rparr>)"
      using Cons.IH [of "done @ [c]"] Cons.prems by simp
    finally show ?thesis by simp
  next
    case (Some g)
    have gP: "g \<noteq> P"
    proof
      assume "g = P"
      then have "P \<in> set (childIds node)" using vt_parent_Some [OF v P Some] P by auto
      then have "P \<in> desc ?t0 P" using kids_in_desc [of ?t0 P] kP by auto
      then show False using vt_not_own_desc [OF v] by simp
    qed
    have "mapModify (emap (\<lambda>k n. (promoteNode node (done @ [c]) ?t0 k n)
                   \<lparr>childIds := (if Some k = parentId node then childIds n @ done else childIds n)\<rparr>) ?t0)
             g (\<lambda>g. g\<lparr>childIds := childIds g @ [c]\<rparr>) = promoted node (done @ [c]) ?t0"
      unfolding promoted_def mapModify_emap emap_emap
      by (rule emap_cong) (auto simp: promoteNode_def Some)
    with t2 have "mapModify ?t2 g (\<lambda>g. g\<lparr>childIds := childIds g @ [c]\<rparr>)
                    = promoted node (done @ [c]) ?t0" by simp
    then have "promote_for f P node (c # rest) ?s =
          promote_for f P node rest
            (s\<lparr>tabs := promoted node (done @ [c]) ?t0,
               roots := (if parentId node = None then roots s @ done @ [c] else roots s)\<rparr>)"
      using Gc u Some gP truthy by (simp add: idStr_def)
    also have "\<dots> = Some (s\<lparr>tabs := promoted node ((done @ [c]) @ rest) ?t0,
                  roots := (if parentId node = None then roots s @ (done @ [c]) @ rest else roots s)\<rparr>)"
      using Cons.IH [of "done @ [c]"] Cons.prems by simp
    finally show ?thesis by simp
  qed
qed

lemma mapDelete_emap: "mapDelete (emap h t) k = emap h (mapDelete t k)"
  by (induction t) (auto simp: mapDelete_def emap_def)

lemma map_of_mapDelete: "map_of (mapDelete t k) k' = (if k' = k then None else map_of t k')"
  by (induction t) (auto simp: mapDelete_def)

lemma promoted_Nil: "promoted node [] t = t"
  unfolding promoted_def by (rule emap_id) (simp add: promoteNode_def)

lemma removeNodeFromTree_promote:
  assumes v: "validTree s" and P: "map_of (tabs s) P = Some node"
    and f: "maxLevel (tabs s) < f"
  shows "removeNodeFromTree f s P True = Some (afterRemoval P node s)"
proof -
  let ?t0 = "tabs s"
  let ?cs = "childIds node"
  have kP: "kids ?t0 P = ?cs" using vt_kids_node [OF v P] .
  have D: "(\<Union>c\<in>set ?cs. insert c (desc ?t0 c)) = desc ?t0 P"
    using desc_unfold [of ?t0 P] kP by simp
  have truthy: "truthyId (parentId node) = (parentId node \<noteq> None)"
    using vt_truthy_parent [OF v P] .
  have "s = s\<lparr>tabs := promoted node [] ?t0,
               roots := (if parentId node = None then roots s @ [] else roots s)\<rparr>"
    by (simp add: promoted_Nil)
  then have "promote_for f P node ?cs s =
          promote_for f P node ?cs
            (s\<lparr>tabs := promoted node [] ?t0,
               roots := (if parentId node = None then roots s @ [] else roots s)\<rparr>)"
    by simp
  also have "\<dots> = Some (s\<lparr>tabs := promoted node ([] @ ?cs) ?t0,
                   roots := (if parentId node = None then roots s @ [] @ ?cs else roots s)\<rparr>)"
    by (rule promote_for_promoted [OF v P f]) simp
  finally have loop: "promote_for f P node ?cs s =
      Some (s\<lparr>tabs := promoted node ?cs ?t0,
              roots := (if parentId node = None then roots s @ ?cs else roots s)\<rparr>)"
    by simp
  show ?thesis
  proof (cases "parentId node")
    case None
    have "P \<in> set (roots s)" using vt_parent_None [OF v P None] .
    then have r: "remove1 P (roots s @ ?cs) = remove1 P (roots s) @ ?cs"
      by (simp add: remove1_append)
    have "mapDelete (promoted node ?cs ?t0) P = mapDelete (emap (withoutNode P node ?t0) ?t0) P"
      unfolding promoted_def mapDelete_emap
      by (rule emap_cong) (simp add: promoteNode_def withoutNode_def D None)
    then show ?thesis
      using P loop None r
      by (simp add: removeNodeFromTree_def afterRemoval_def truthyId_def)
  next
    case (Some g)
    then obtain gn where gn: "map_of ?t0 g = Some gn" and Pg: "P \<in> set (childIds gn)"
      using vt_parent_Some [OF v P] by blast
    have "mapDelete (mapModify (promoted node ?cs ?t0) g (\<lambda>p. p\<lparr>childIds := remove1 P (childIds p)\<rparr>)) P
            = mapDelete (emap (withoutNode P node ?t0) ?t0) P"
      unfolding promoted_def mapModify_emap emap_emap mapDelete_emap
    proof (rule emap_cong)
      fix k n assume "(k, n) \<in> set (mapDelete ?t0 P)"
      then have "map_of ?t0 k = Some n"
        using vt_map_of_iff [OF v] by (simp add: mapDelete_def)
      then have "P \<in> set (childIds n)" if "k = g" using that gn Pg by simp
      then show "(if k = g then (promoteNode node ?cs ?t0 k n)
                         \<lparr>childIds := remove1 P (childIds (promoteNode node ?cs ?t0 k n))\<rparr>
                  else promoteNode node ?cs ?t0 k n) = withoutNode P node ?t0 k n"
        by (auto simp: promoteNode_def withoutNode_def D Some remove1_append)
    qed
    then show ?thesis
      using P loop Some truthy
      by (simp add: removeNodeFromTree_def afterRemoval_def idStr_def)
  qed
qed

lemma in_remove1D: "c \<in> set (remove1 x xs) \<Longrightarrow> c \<in> set xs"
  using set_remove1_subset [of x xs] by auto

lemma validTreeI:
  assumes "distinct (map fst (tabs s))" and "ownIds (tabs s)" and "\<not> mapHas (tabs s) []"
    and "distinct (roots s)" and "distinct (collapsedSet s)"
    and "\<And>r. r \<in> set (roots s) \<Longrightarrow>
           \<exists>n. map_of (tabs s) r = Some n \<and> parentId n = None \<and> level n = 0"
    and "\<And>k n. map_of (tabs s) k = Some n \<Longrightarrow> distinct (childIds n)"
    and "\<And>k n c. map_of (tabs s) k = Some n \<Longrightarrow> c \<in> set (childIds n) \<Longrightarrow>
           \<exists>m. map_of (tabs s) c = Some m \<and> parentId m = Some k \<and> level m = level n + 1"
    and "\<And>k n. map_of (tabs s) k = Some n \<Longrightarrow> parentId n = None \<Longrightarrow> k \<in> set (roots s)"
    and "\<And>k n p. map_of (tabs s) k = Some n \<Longrightarrow> parentId n = Some p \<Longrightarrow>
           \<exists>pn. map_of (tabs s) p = Some pn \<and> k \<in> set (childIds pn)"
  shows "validTree s"
proof -
  have m: "\<And>e. e \<in> set (tabs s) \<Longrightarrow> map_of (tabs s) (fst e) = Some (snd e)"
    using assms(1) by simp
  have 6: "list_all (\<lambda>r. nodeAt (tabs s) r (\<lambda>n. parentId n = None \<and> level n = 0)) (roots s)"
    unfolding list_all_iff using assms(6) by (fastforce simp: nodeAt_def)
  have 7: "list_all (\<lambda>e. distinct (childIds (snd e))
                     \<and> list_all (\<lambda>c. nodeAt (tabs s) c
                                        (\<lambda>m. parentId m = Some (fst e)
                                              \<and> level m = level (snd e) + 1))
                           (childIds (snd e))) (tabs s)"
    unfolding list_all_iff
  proof (intro ballI conjI)
    fix e assume e: "e \<in> set (tabs s)"
    show "distinct (childIds (snd e))" using assms(7) [OF m [OF e]] .
    fix c assume "c \<in> set (childIds (snd e))"
    from assms(8) [OF m [OF e] this]
    show "nodeAt (tabs s) c (\<lambda>m. parentId m = Some (fst e) \<and> level m = level (snd e) + 1)"
      by (auto simp: nodeAt_def)
  qed
  have 8: "list_all (\<lambda>e. case parentId (snd e) of
                          None \<Rightarrow> fst e \<in> set (roots s)
                        | Some p \<Rightarrow> nodeAt (tabs s) p (\<lambda>n. fst e \<in> set (childIds n)))
            (tabs s)"
    unfolding list_all_iff
  proof
    fix e assume e: "e \<in> set (tabs s)"
    show "case parentId (snd e) of None \<Rightarrow> fst e \<in> set (roots s)
          | Some p \<Rightarrow> nodeAt (tabs s) p (\<lambda>n. fst e \<in> set (childIds n))"
    proof (cases "parentId (snd e)")
      case None
      then show ?thesis using assms(9) [OF m [OF e]] by simp
    next
      case (Some p)
      then show ?thesis using assms(10) [OF m [OF e] Some] by (auto simp: nodeAt_def)
    qed
  qed
  show ?thesis
    unfolding validTree_def using assms(1-5) 6 7 8 by blast
qed

lemma vt_desc_iff_parent:
  assumes v: "validTree s" and x: "map_of (tabs s) x = Some xn"
  shows "(x \<in> desc (tabs s) P) =
           (case parentId xn of None \<Rightarrow> False | Some y \<Rightarrow> y = P \<or> y \<in> desc (tabs s) P)"
proof (cases "parentId xn")
  case None
  have "x \<notin> desc (tabs s) P"
  proof
    assume "x \<in> desc (tabs s) P"
    then obtain y where "(y, x) \<in> edges (tabs s)"
      by (auto simp: desc_def dest: tranclD2)
    then obtain yn where "map_of (tabs s) y = Some yn" "x \<in> set (childIds yn)"
      by (auto simp: edges_def dest: kids_SomeD)
    from vt_child [OF v this] show False using x None by simp
  qed
  then show ?thesis using None by simp
next
  case (Some y)
  then obtain yn where yn: "map_of (tabs s) y = Some yn" "x \<in> set (childIds yn)"
    using vt_parent_Some [OF v x] by blast
  then have e: "(y, x) \<in> edges (tabs s)"
    using x by (simp add: edges_def kids_def cids_def mapHas_map_of)
  have "(x \<in> desc (tabs s) P) = (y = P \<or> y \<in> desc (tabs s) P)"
  proof
    assume "x \<in> desc (tabs s) P"
    then have "(P, x) \<in> (edges (tabs s))\<^sup>+" by (simp add: desc_def)
    then show "y = P \<or> y \<in> desc (tabs s) P"
    proof (cases rule: tranclE)
      case base
      then show ?thesis using vt_one_parent [OF v e] by simp
    next
      case (step y')
      then have "y' = y" using vt_one_parent [OF v e] by simp
      then show ?thesis using step by (simp add: desc_def)
    qed
  next
    assume "y = P \<or> y \<in> desc (tabs s) P"
    then show "x \<in> desc (tabs s) P"
      using e by (auto simp: desc_def intro: trancl_into_trancl)
  qed
  then show ?thesis using Some by simp
qed

lemma vt_afterRemoval:
  assumes v: "validTree s" and P: "map_of (tabs s) P = Some node"
  shows "validTree (afterRemoval P node s)"
proof (rule validTreeI)
  let ?t0 = "tabs s"
  let ?cs = "childIds node"
  let ?s' = "afterRemoval P node s"
  let ?H = "withoutNode P node ?t0"
  have look: "\<And>k. map_of (tabs ?s') k = (if k = P then None else map_option (?H k) (map_of ?t0 k))"
    by (simp add: afterRemoval_def map_of_mapDelete map_of_emap)
  have kP: "kids ?t0 P = ?cs" using vt_kids_node [OF v P] .
  have child: "\<And>c. c \<in> set ?cs \<Longrightarrow>
      \<exists>cn. map_of ?t0 c = Some cn \<and> parentId cn = Some P \<and> level cn = level node + 1"
    using vt_child [OF v P] .
  have csD: "set ?cs \<subseteq> desc ?t0 P" using kids_in_desc [of ?t0 P] kP by simp
  have PnD: "P \<notin> desc ?t0 P" using vt_not_own_desc [OF v] .
  have Pncs: "P \<notin> set ?cs" using csD PnD by auto
  have cs_iff: "(x \<in> set ?cs) = (parentId xn = Some P)" if "map_of ?t0 x = Some xn" for x xn
  proof
    assume "x \<in> set ?cs"
    then show "parentId xn = Some P" using child [of x] that by auto
  next
    assume "parentId xn = Some P"
    then show "x \<in> set ?cs" using vt_parent_Some [OF v that] P by auto
  qed
  have dlev: "level node < level xn" if "map_of ?t0 x = Some xn" "x \<in> desc ?t0 P" for x xn
    using vt_desc_level [OF v that(2)] that(1) P by (simp add: levelOf_def)
  have Proot: "P \<in> set (roots s) \<and> level node = 0" if "parentId node = None"
    using vt_parent_None [OF v P that] vt_root [OF v, of P] P by auto
  have Pchild: "\<exists>gn. map_of ?t0 g = Some gn \<and> P \<in> set (childIds gn)
                  \<and> level node = level gn + 1 \<and> g \<noteq> P \<and> g \<notin> desc ?t0 P
                  \<and> parentId gn \<noteq> Some P"
    if pg: "parentId node = Some g" for g
  proof -
    obtain gn where gn: "map_of ?t0 g = Some gn" "P \<in> set (childIds gn)"
      using vt_parent_Some [OF v P pg] by blast
    have l: "level node = level gn + 1" using vt_child [OF v gn] P by simp
    have "g \<noteq> P" using gn P Pncs by auto
    moreover have "g \<notin> desc ?t0 P" using dlev [OF gn(1)] l by auto
    moreover have "parentId gn \<noteq> Some P" using cs_iff [OF gn(1)] csD \<open>g \<notin> desc ?t0 P\<close> by auto
    ultimately show ?thesis using gn l by blast
  qed
  have Pnroot: "P \<notin> set (roots s)" if "parentId node \<noteq> None"
    using vt_root [OF v, of P] P that by auto

  show "distinct (map fst (tabs ?s'))"
    using vt_distinct [OF v]
    by (simp add: afterRemoval_def mapDelete_emap map_fst_emap mapDelete_def distinct_map_filter)
  show "ownIds (tabs ?s')"
    using vt_ownIds [OF v]
    by (auto simp: afterRemoval_def ownIds_def list_all_iff emap_def mapDelete_def
        withoutNode_def)
  show "\<not> mapHas (tabs ?s') []"
    using v by (auto simp: validTree_def mapHas_map_of look)
  show "distinct (roots ?s')"
  proof (cases "parentId node")
    case None
    have "distinct (roots s)" using v by (simp add: validTree_def)
    moreover have "distinct ?cs" using vt_distinct_childIds [OF v P] .
    moreover have "set (roots s) \<inter> set ?cs = {}"
      using vt_root [OF v] child by fastforce
    ultimately show ?thesis
      using None by (auto simp: afterRemoval_def dest: in_remove1D)
  next
    case (Some g)
    then show ?thesis using v by (simp add: afterRemoval_def validTree_def)
  qed
  show "distinct (collapsedSet ?s')"
    using v by (simp add: afterRemoval_def validTree_def setDelete_def distinct_removeAll)
  show "\<exists>n. map_of (tabs ?s') r = Some n \<and> parentId n = None \<and> level n = 0"
    if r: "r \<in> set (roots ?s')" for r
  proof (cases "r \<in> set ?cs")
    case True
    then obtain cn where cn: "map_of ?t0 r = Some cn" "level cn = level node + 1"
      using child by blast
    have "parentId node = None"
      using r True vt_root [OF v, of r] child [OF True]
      by (cases "parentId node") (auto simp: afterRemoval_def)
    then show ?thesis
      using cn True csD Pncs Proot by (auto simp: look withoutNode_def)
  next
    case False
    then have r0: "r \<in> set (roots s)" and rP: "r \<noteq> P"
      using r Pnroot v
      by (auto simp: afterRemoval_def validTree_def split: if_splits dest: in_remove1D)
    then obtain rn where rn: "map_of ?t0 r = Some rn" "parentId rn = None" "level rn = 0"
      using vt_root [OF v] by blast
    have "r \<notin> desc ?t0 P" using vt_desc_iff_parent [OF v rn(1)] rn(2) by simp
    then show ?thesis using rn rP False by (simp add: look withoutNode_def)
  qed
  show "distinct (childIds n')" if n': "map_of (tabs ?s') k = Some n'" for k n'
  proof -
    from n' obtain n where kP': "k \<noteq> P" and n: "map_of ?t0 k = Some n" and n'H: "n' = ?H k n"
      by (auto simp: look split: if_splits)
    have d: "distinct (childIds n)" using vt_distinct_childIds [OF v n] .
    show ?thesis
    proof (cases "Some k = parentId node")
      case True
      have "set (childIds n) \<inter> set ?cs = {}"
      proof (rule ccontr)
        assume "set (childIds n) \<inter> set ?cs \<noteq> {}"
        then obtain x where "x \<in> set (childIds n)" "x \<in> set ?cs" by auto
        then show False using vt_child [OF v n] child kP' by fastforce
      qed
      then show ?thesis
        using d vt_distinct_childIds [OF v P] True n'H
        by (auto simp: withoutNode_def dest: in_remove1D)
    next
      case False
      then show ?thesis using d n'H by (simp add: withoutNode_def)
    qed
  qed
  show "\<exists>m. map_of (tabs ?s') c = Some m \<and> parentId m = Some k \<and> level m = level n' + 1"
    if n': "map_of (tabs ?s') k = Some n'" and c: "c \<in> set (childIds n')" for k n' c
  proof -
    from n' obtain n where kP': "k \<noteq> P" and n: "map_of ?t0 k = Some n" and n'H: "n' = ?H k n"
      by (auto simp: look split: if_splits)
    have ln': "level n' = (if k \<in> desc ?t0 P then level n - 1 else level n)"
      using n'H by (simp add: withoutNode_def)
    show ?thesis
    proof (cases "c \<in> set ?cs \<and> Some k = parentId node")
      case True
      then obtain cn where cn: "map_of ?t0 c = Some cn" "level cn = level node + 1"
        using child by blast
      from True obtain gn where g: "map_of ?t0 k = Some gn" "level node = level gn + 1"
        "k \<notin> desc ?t0 P"
        using Pchild [of k] by auto
      have "c \<noteq> P" using True Pncs by auto
      then show ?thesis
        using True cn g n csD ln' by (auto simp: look withoutNode_def)
    next
      case False
      then have c0: "c \<in> set (childIds n)" and cP: "c \<noteq> P"
      proof -
        show "c \<in> set (childIds n)"
          using c n'H False by (auto simp: withoutNode_def split: if_splits dest: in_remove1D)
        show "c \<noteq> P"
        proof
          assume "c = P"
          show False
          proof (cases "Some k = parentId node")
            case True
            then have "distinct (childIds n)" using vt_distinct_childIds [OF v n] by simp
            then show False
              using c n'H True \<open>c = P\<close> Pncs by (auto simp: withoutNode_def)
          next
            case False
            have "parentId node = Some k"
              using vt_child [OF v n, of P] c n'H False \<open>c = P\<close> P
              by (auto simp: withoutNode_def)
            then show False using False by simp
          qed
        qed
      qed
      from vt_child [OF v n c0] obtain cn where
        cn: "map_of ?t0 c = Some cn" "parentId cn = Some k" "level cn = level n + 1" by auto
      have ncs: "c \<notin> set ?cs" using cs_iff [OF cn(1)] cn(2) kP' by simp
      have cd: "(c \<in> desc ?t0 P) = (k \<in> desc ?t0 P)"
        using vt_desc_iff_parent [OF v cn(1), of P] cn(2) kP' by simp
      have "0 < level n" if "k \<in> desc ?t0 P" using dlev [OF n that] by simp
      then show ?thesis
        using cn cP ncs cd ln' by (auto simp: look withoutNode_def)
    qed
  qed
  show "k \<in> set (roots ?s')"
    if n': "map_of (tabs ?s') k = Some n'" and p: "parentId n' = None" for k n'
  proof -
    from n' obtain n where kP': "k \<noteq> P" and n: "map_of ?t0 k = Some n" and n'H: "n' = ?H k n"
      by (auto simp: look split: if_splits)
    show ?thesis
    proof (cases "k \<in> set ?cs")
      case True
      then show ?thesis using p n'H by (simp add: withoutNode_def afterRemoval_def)
    next
      case False
      then have "parentId n = None" using p n'H by (simp add: withoutNode_def)
      then have "k \<in> set (roots s)" using vt_parent_None [OF v n] by simp
      then show ?thesis using kP' by (simp add: afterRemoval_def)
    qed
  qed
  show "\<exists>pn. map_of (tabs ?s') p = Some pn \<and> k \<in> set (childIds pn)"
    if n': "map_of (tabs ?s') k = Some n'" and p: "parentId n' = Some p" for k n' p
  proof -
    from n' obtain n where kP': "k \<noteq> P" and n: "map_of ?t0 k = Some n" and n'H: "n' = ?H k n"
      by (auto simp: look split: if_splits)
    show ?thesis
    proof (cases "k \<in> set ?cs")
      case True
      then have pg: "parentId node = Some p" using p n'H by (simp add: withoutNode_def)
      from Pchild [OF this] obtain gn where "map_of ?t0 p = Some gn" "p \<noteq> P" by blast
      then show ?thesis using True pg by (simp add: look withoutNode_def)
    next
      case False
      then have pn: "parentId n = Some p" using p n'H by (simp add: withoutNode_def)
      then obtain pn where pn': "map_of ?t0 p = Some pn" "k \<in> set (childIds pn)"
        using vt_parent_Some [OF v n] by blast
      have "p \<noteq> P" using cs_iff [OF n] pn False by simp
      then show ?thesis using pn' kP' by (auto simp: look withoutNode_def)
    qed
  qed
qed

text \<open>
  Claim C5, as stated: the promoted children take the former position of the removed node.
  Removing the root \<open>a\<close>, listed before the root \<open>d\<close>, leaves the roots \<open>d, b\<close>; removing
  \<open>p\<close>, listed before its sibling \<open>q\<close>, leaves the parent with the children \<open>q, x\<close>.
\<close>

theorem promoted_children_go_last:
  "map_option roots (removeNodeFromTree 3 treeABCD ''a'' True) = Some [''d'', ''b'']
   \<and> map_option (\<lambda>s. cids (tabs s) ''g'') (removeNodeFromTree 3 treeGPQ ''p'' True)
       = Some [''q'', ''x'']"
  by (simp add: removeNodeFromTree_def treeABCD_def treeGPQ_def newNode_def numeral_3_eq_3
      mapModify_def mapDelete_def levelOf_def truthyId_def truthy_def idStr_def cids_def)

text \<open>
  Claim C5, amended. For a valid tree and a stored node \<open>P\<close>, \<open>removeNodeFromTree\<close> with
  promotion returns, given a depth above the largest level, a valid tree (so the levels
  below the promoted children are the recomputed ones) in which \<open>P\<close> is no key, no root, no
  collapsed id and no child. The children of \<open>P\<close> follow, in their order, the remaining
  roots when \<open>P\<close> had no parent, and otherwise the remaining children of the parent of
  \<open>P\<close>; each has the parent and the level that \<open>P\<close> had.
\<close>

theorem remove_promotes_children:
  assumes "validTree s" and "map_of (tabs s) P = Some node" and "maxLevel (tabs s) < f"
  shows "\<exists>s'. removeNodeFromTree f s P True = Some s'
           \<and> validTree s'
           \<and> \<not> mapHas (tabs s') P \<and> P \<notin> set (roots s') \<and> P \<notin> set (collapsedSet s')
           \<and> \<not> isChild s' P
           \<and> (parentId node = None \<longrightarrow> roots s' = remove1 P (roots s) @ childIds node)
           \<and> (\<forall>g. parentId node = Some g \<longrightarrow>
                  roots s' = roots s
                  \<and> cids (tabs s') g = remove1 P (cids (tabs s) g) @ childIds node)
           \<and> list_all (\<lambda>c. nodeAt (tabs s') c
                              (\<lambda>m. parentId m = parentId node \<and> level m = level node))
                 (childIds node)"
proof -
  let ?t0 = "tabs s"
  let ?s' = "afterRemoval P node s"
  have r: "removeNodeFromTree f s P True = Some ?s'"
    using assms by (rule removeNodeFromTree_promote)
  have v': "validTree ?s'" using assms(1,2) by (rule vt_afterRemoval)
  have look: "\<And>k. map_of (tabs ?s') k
                = (if k = P then None else map_option (withoutNode P node ?t0 k) (map_of ?t0 k))"
    by (simp add: afterRemoval_def map_of_mapDelete map_of_emap)
  have 1: "\<not> mapHas (tabs ?s') P" by (simp add: mapHas_map_of look)
  have 2: "P \<notin> set (roots ?s')" using vt_root [OF v', of P] look [of P] by auto
  have 3: "P \<notin> set (collapsedSet ?s')" by (simp add: afterRemoval_def setDelete_def)
  have 4: "\<not> isChild ?s' P"
  proof
    assume "isChild ?s' P"
    then obtain k n where "(k, n) \<in> set (tabs ?s')" "P \<in> set (childIds n)"
      by (auto simp: isChild_def list_ex_iff)
    then have "map_of (tabs ?s') k = Some n" "P \<in> set (childIds n)"
      using vt_map_of_iff [OF v'] by simp_all
    from vt_child [OF v' this] show False using look [of P] by simp
  qed
  have 5: "parentId node = None \<longrightarrow> roots ?s' = remove1 P (roots s) @ childIds node"
    by (simp add: afterRemoval_def)
  have 6: "roots ?s' = roots s \<and> cids (tabs ?s') g = remove1 P (cids ?t0 g) @ childIds node"
    if pg: "parentId node = Some g" for g
  proof -
    obtain gn where gn: "map_of ?t0 g = Some gn" "P \<in> set (childIds gn)"
      using vt_parent_Some [OF assms(1,2) pg] by blast
    have "g \<noteq> P"
    proof
      assume "g = P"
      then have "P \<in> set (kids ?t0 P)" using gn assms(2) vt_kids_node [OF assms(1,2)] by simp
      then show False using kids_in_desc [of ?t0 P] vt_not_own_desc [OF assms(1), of P] by auto
    qed
    then have "map_of (tabs ?s') g = Some (withoutNode P node ?t0 g gn)"
      using gn by (simp add: look)
    then show ?thesis using gn pg by (simp add: cids_def withoutNode_def) (simp add: afterRemoval_def)
  qed
  have 7: "list_all (\<lambda>c. nodeAt (tabs ?s') c
                              (\<lambda>m. parentId m = parentId node \<and> level m = level node))
                 (childIds node)"
    unfolding list_all_iff
  proof
    fix c assume c: "c \<in> set (childIds node)"
    from vt_child [OF assms(1,2) c] obtain cn where
      cn: "map_of ?t0 c = Some cn" "level cn = level node + 1" by auto
    have cd: "c \<in> desc ?t0 P"
      using kids_in_desc [of ?t0 P] vt_kids_node [OF assms(1,2)] c by auto
    then have "c \<noteq> P" using vt_not_own_desc [OF assms(1), of P] by auto
    then show "nodeAt (tabs ?s') c (\<lambda>m. parentId m = parentId node \<and> level m = level node)"
      using cn c cd by (simp add: nodeAt_def look withoutNode_def)
  qed
  have six: "\<forall>g. parentId node = Some g \<longrightarrow>
                  roots ?s' = roots s
                  \<and> cids (tabs ?s') g = remove1 P (cids ?t0 g) @ childIds node"
    using 6 by blast
  show ?thesis
    by (insert r v' 1 2 3 4 5 six 7, intro exI [of _ ?s'] conjI; assumption)
qed

lemma treeABCD_b: "map_of (tabs treeABCD) ''b'' = Some nodeB"
  by (simp add: treeABCD_def nodeB_def)

theorem remove_promotes_children_witness:
  "validTree treeABCD \<and> map_of (tabs treeABCD) ''b'' = Some nodeB
   \<and> maxLevel (tabs treeABCD) < 3
   \<and> (\<exists>s'. removeNodeFromTree 3 treeABCD ''b'' True = Some s' \<and> validTree s'
            \<and> \<not> mapHas (tabs s') ''b''
            \<and> roots s' = [''a'', ''d''] \<and> cids (tabs s') ''a'' = [''c'']
            \<and> nodeAt (tabs s') ''c'' (\<lambda>m. parentId m = Some ''a'' \<and> level m = 1))"
proof -
  from remove_promotes_children [OF valid_treeABCD treeABCD_b maxLevel_treeABCD]
  obtain s' where r: "removeNodeFromTree 3 treeABCD ''b'' True = Some s'"
    and v: "validTree s'" and h: "\<not> mapHas (tabs s') ''b''"
    and g: "\<forall>g. parentId nodeB = Some g \<longrightarrow>
                  roots s' = roots treeABCD
                  \<and> cids (tabs s') g = remove1 ''b'' (cids (tabs treeABCD) g) @ childIds nodeB"
    and c: "list_all (\<lambda>c. nodeAt (tabs s') c
                              (\<lambda>m. parentId m = parentId nodeB \<and> level m = level nodeB))
                 (childIds nodeB)"
    by blast
  have p: "parentId nodeB = Some ''a''" "childIds nodeB = [''c'']" "level nodeB = 1"
    by (simp_all add: nodeB_def newNode_def)
  have t: "roots treeABCD = [''a'', ''d'']" "cids (tabs treeABCD) ''a'' = [''b'']"
    by (simp_all add: treeABCD_def cids_def newNode_def)
  have 1: "roots s' = [''a'', ''d'']" "cids (tabs s') ''a'' = [''c'']"
    using g p t by simp_all
  have 2: "nodeAt (tabs s') ''c'' (\<lambda>m. parentId m = Some ''a'' \<and> level m = 1)"
    using c p by simp
  show ?thesis
    by (insert valid_treeABCD treeABCD_b maxLevel_treeABCD r v h 1 2,
        intro exI [of _ s'] conjI; assumption)
qed

subsection \<open>Relabelling: the first pass\<close>

lemma map_of_replace_other:
  "k' \<noteq> k \<Longrightarrow> map_of (map (\<lambda>e. if fst e = k then (k, v) else e) t) k' = map_of t k'"
  by (induction t) auto

lemma map_of_replace_same:
  "mapHas t k \<Longrightarrow> map_of (map (\<lambda>e. if fst e = k then (k, v) else e) t) k = Some v"
  by (induction t) (auto simp: mapHas_def)

lemma map_of_mapSet: "map_of (mapSet t k v) k' = (if k' = k then Some v else map_of t k')"
  by (auto simp: mapSet_def map_of_replace_other map_of_replace_same mapHas_map_of map_add_def split: option.splits)

lemma map_fst_mapSet:
  "map fst (mapSet t k v) = (if mapHas t k then map fst t else map fst t @ [k])"
proof -
  have "map fst (map (\<lambda>e. if fst e = k then (k, v) else e) t) = map fst t"
    by (induction t) auto
  then show ?thesis by (simp add: mapSet_def)
qed

lemma map_fst_mapDelete: "map fst (mapDelete t k) = filter (\<lambda>x. x \<noteq> k) (map fst t)"
  by (induction t) (auto simp: mapDelete_def)

lemma mapHas_mapDelete: "mapHas (mapDelete t k) k' = (k' \<noteq> k \<and> mapHas t k')"
  by (auto simp: mapHas_def map_fst_mapDelete)

lemma distinct_mapSet: "distinct (map fst t) \<Longrightarrow> distinct (map fst (mapSet t k v))"
  by (auto simp: map_fst_mapSet mapHas_def)

lemma ownIds_mapSet: "ownIds t \<Longrightarrow> id_n v = k \<Longrightarrow> ownIds (mapSet t k v)"
  by (auto simp: ownIds_def list_all_iff mapSet_def)

lemma ownIds_mapDelete: "ownIds t \<Longrightarrow> ownIds (mapDelete t k)"
  by (auto simp: ownIds_def list_all_iff mapDelete_def)

lemma ownIds_mapModify: "ownIds t \<Longrightarrow> (\<And>n. id_n (g n) = id_n n) \<Longrightarrow> ownIds (mapModify t k g)"
  by (auto simp: ownIds_def list_all_iff mapModify_def)

lemma findExistingNode_SomeD:
  "findExistingNode t ttl cur = Some (k, n) \<Longrightarrow>
     (k, n) \<in> set t \<and> nodeType n = Tab \<and> title n = ttl \<and> k \<notin> set cur"
  unfolding findExistingNode_def by (induction t) (auto split: if_splits)

lemma passInv_start:
  "distinct (map fst (tabs s)) \<Longrightarrow> ownIds (tabs s) \<Longrightarrow> passInv items s [] (s, [], [])"
  by (simp add: passInv_def sameLinks_def)

lemma map_of_snoc:
  "map_of (m @ [(k, v)]) k' =
     (case map_of m k' of Some x \<Rightarrow> Some x | None \<Rightarrow> if k' = k then Some v else None)"
  by (simp add: map_add_def split: option.splits)

lemma passInvD:
  assumes "passInv items s zs (s', cur, mig)"
  shows "set cur = set (map zt_id zs)"
    and "distinct (map fst (tabs s'))" and "ownIds (tabs s')"
    and "set (map fst (tabs s')) \<subseteq> set (map fst (tabs s)) \<union> set cur"
    and "snd ` set mig \<subseteq> set cur"
    and "\<exists>extra. roots s' = roots s @ extra"
    and "collapsedSet s' = collapsedSet s"
    and "\<forall>k orig. map_of (tabs s) k = Some orig \<longrightarrow> map_of mig k = None
              \<longrightarrow> k \<notin> snd ` set mig
              \<longrightarrow> (\<exists>node'. map_of (tabs s') k = Some node' \<and> sameLinks node' orig
                      \<and> (k \<notin> set cur \<longrightarrow> node' = orig))"
    and "\<forall>k n. map_of mig k = Some n \<longrightarrow>
              (k \<notin> set cur \<longrightarrow> map_of (tabs s') k = None)
              \<and> (\<exists>orig z node'. map_of (tabs s) k = Some orig \<and> nodeType orig = Tab
                     \<and> z \<in> set zs \<and> zt_id z = n \<and> title orig = getTabTitle items z
                     \<and> map_of (tabs s') n = Some node' \<and> sameLinks node' orig)"
proof -
  note a1 = assms [unfolded passInv_def prod.case]
  note a2 = a1 [THEN conjunct2]
  note a3 = a2 [THEN conjunct2]
  note a4 = a3 [THEN conjunct2]
  note a5 = a4 [THEN conjunct2]
  note a6 = a5 [THEN conjunct2]
  note a7 = a6 [THEN conjunct2]
  note a8 = a7 [THEN conjunct2]
  show "set cur = set (map zt_id zs)" by (rule a1 [THEN conjunct1])
  show "distinct (map fst (tabs s'))" by (rule a2 [THEN conjunct1])
  show "ownIds (tabs s')" by (rule a3 [THEN conjunct1])
  show "set (map fst (tabs s')) \<subseteq> set (map fst (tabs s)) \<union> set cur"
    by (rule a4 [THEN conjunct1])
  show "snd ` set mig \<subseteq> set cur" by (rule a5 [THEN conjunct1])
  show "\<exists>extra. roots s' = roots s @ extra" by (rule a6 [THEN conjunct1])
  show "collapsedSet s' = collapsedSet s" by (rule a7 [THEN conjunct1])
  show "\<forall>k orig. map_of (tabs s) k = Some orig \<longrightarrow> map_of mig k = None
              \<longrightarrow> k \<notin> snd ` set mig
              \<longrightarrow> (\<exists>node'. map_of (tabs s') k = Some node' \<and> sameLinks node' orig
                      \<and> (k \<notin> set cur \<longrightarrow> node' = orig))"
    by (rule a8 [THEN conjunct1])
  show "\<forall>k n. map_of mig k = Some n \<longrightarrow>
              (k \<notin> set cur \<longrightarrow> map_of (tabs s') k = None)
              \<and> (\<exists>orig z node'. map_of (tabs s) k = Some orig \<and> nodeType orig = Tab
                     \<and> z \<in> set zs \<and> zt_id z = n \<and> title orig = getTabTitle items z
                     \<and> map_of (tabs s') n = Some node' \<and> sameLinks node' orig)"
    by (rule a8 [THEN conjunct2])
qed

lemma passInvI:
  assumes "set cur = set (map zt_id zs)"
    and "distinct (map fst (tabs s'))" and "ownIds (tabs s')"
    and "set (map fst (tabs s')) \<subseteq> set (map fst (tabs s)) \<union> set cur"
    and "snd ` set mig \<subseteq> set cur"
    and "\<exists>extra. roots s' = roots s @ extra"
    and "collapsedSet s' = collapsedSet s"
    and "\<And>k orig. map_of (tabs s) k = Some orig \<Longrightarrow> map_of mig k = None
              \<Longrightarrow> k \<notin> snd ` set mig
              \<Longrightarrow> \<exists>node'. map_of (tabs s') k = Some node' \<and> sameLinks node' orig
                      \<and> (k \<notin> set cur \<longrightarrow> node' = orig)"
    and "\<And>k n. map_of mig k = Some n \<Longrightarrow>
              (k \<notin> set cur \<longrightarrow> map_of (tabs s') k = None)
              \<and> (\<exists>orig z node'. map_of (tabs s) k = Some orig \<and> nodeType orig = Tab
                     \<and> z \<in> set zs \<and> zt_id z = n \<and> title orig = getTabTitle items z
                     \<and> map_of (tabs s') n = Some node' \<and> sameLinks node' orig)"
  shows "passInv items s zs (s', cur, mig)"
  unfolding passInv_def prod.case
  apply (intro conjI)
          apply (rule assms(1))
         apply (rule assms(2))
        apply (rule assms(3))
       apply (rule assms(4))
      apply (rule assms(5))
     apply (rule assms(6))
    apply (rule assms(7))
   apply (intro allI impI)
   apply (erule (2) assms(8))
  apply (intro allI impI)
  apply (erule assms(9))
  done

lemma passInv_migrate:
  assumes inv: "passInv items s zs (s', cur, mig)"
    and fresh: "zt_id zt \<notin> set (map zt_id zs)"
    and found: "findExistingNode (tabs s') (getTabTitle items zt) (setAdd cur (zt_id zt))
                  = Some (tabId, ex)"
  shows "passInv items s (zs @ [zt])
           (s'\<lparr>tabs := mapSet (mapDelete (tabs s') (id_n ex)) (zt_id zt)
                         (ex\<lparr>id_n := zt_id zt, title := getTabTitle items zt,
                             type := zt_type zt, selected := (Some (zt_id zt) = sel)\<rparr>)\<rparr>,
            setAdd cur (zt_id zt), mapSet mig tabId (zt_id zt))"
proof -
  let ?n = "zt_id zt"
  let ?ex = "ex\<lparr>id_n := ?n, title := getTabTitle items zt, type := zt_type zt,
                 selected := (Some ?n = sel)\<rparr>"
  let ?T = "mapSet (mapDelete (tabs s') (id_n ex)) ?n ?ex"
  note c = passInvD(1) [OF inv] and d = passInvD(2) [OF inv] and o = passInvD(3) [OF inv]
    and ks = passInvD(4) [OF inv] and rn = passInvD(5) [OF inv] and rt = passInvD(6) [OF inv]
    and cs = passInvD(7) [OF inv] and A = passInvD(8) [OF inv] and B = passInvD(9) [OF inv]
  have cur': "set (setAdd cur ?n) = insert ?n (set cur)" by (auto simp: setAdd_def)
  from findExistingNode_SomeD [OF found]
  have mem: "(tabId, ex) \<in> set (tabs s')" and tab: "nodeType ex = Tab"
    and ttl: "title ex = getTabTitle items zt" and nc: "tabId \<notin> set (setAdd cur ?n)"
    by simp_all
  have look: "map_of (tabs s') tabId = Some ex" using mem d by simp
  have own: "id_n ex = tabId" using ownIds_map_of [OF o look] .
  have ne: "tabId \<noteq> ?n" and nc0: "tabId \<notin> set cur" using nc cur' by auto
  have n0: "?n \<notin> set cur" using fresh c by simp
  have nomig: "map_of mig tabId = None"
  proof (cases "map_of mig tabId")
    case (Some m)
    with B nc0 have "map_of (tabs s') tabId = None" by blast
    with look show ?thesis by simp
  qed simp
  have mig': "mapSet mig tabId ?n = mig @ [(tabId, ?n)]"
    using nomig by (simp add: mapSet_def mapHas_map_of)
  have T: "\<And>k. map_of ?T k
             = (if k = ?n then Some ?ex else if k = tabId then None else map_of (tabs s') k)"
    by (simp add: map_of_mapSet map_of_mapDelete own)
  have ins: "mapHas (tabs s) tabId"
  proof -
    have "tabId \<in> set (map fst (tabs s'))" using mem by force
    with ks nc0 show ?thesis by (auto simp: mapHas_def)
  qed
  then obtain orig0 where orig0: "map_of (tabs s) tabId = Some orig0"
    by (auto simp: mapHas_map_of)
  have "tabId \<notin> snd ` set mig" using rn nc0 by auto
  with A orig0 nomig nc0 look have same: "orig0 = ex" by fastforce
  have 1: "set (setAdd cur ?n) = set (map zt_id (zs @ [zt]))" using cur' c by auto
  have 2: "distinct (map fst ?T)"
    by (intro distinct_mapSet) (simp add: map_fst_mapDelete d)
  have 3: "ownIds ?T" by (intro ownIds_mapSet ownIds_mapDelete o) simp
  have 4: "set (map fst ?T) \<subseteq> set (map fst (tabs s)) \<union> set (setAdd cur ?n)"
    using ks by (auto simp: map_fst_mapSet map_fst_mapDelete cur' split: if_splits)
  have 5: "snd ` set (mig @ [(tabId, ?n)]) \<subseteq> set (setAdd cur ?n)"
    using rn by (auto simp: cur')
  have 6: "\<exists>node'. map_of ?T k = Some node' \<and> sameLinks node' orig
                      \<and> (k \<notin> set (setAdd cur ?n) \<longrightarrow> node' = orig)"
    if k: "map_of (tabs s) k = Some orig" "map_of (mig @ [(tabId, ?n)]) k = None"
          "k \<notin> snd ` set (mig @ [(tabId, ?n)])" for k orig
  proof -
    from k(2) have a: "map_of mig k = None" "k \<noteq> tabId"
      by (auto simp: map_of_snoc split: option.splits if_splits)
    from k(3) have b: "k \<noteq> ?n" "k \<notin> snd ` set mig" by auto
    from A k(1) a(1) b(2) obtain node' where
      "map_of (tabs s') k = Some node'" "sameLinks node' orig" "k \<notin> set cur \<longrightarrow> node' = orig"
      by blast
    then show ?thesis using a b by (simp add: T cur')
  qed
  have 7: "(k \<notin> set (setAdd cur ?n) \<longrightarrow> map_of ?T k = None)
              \<and> (\<exists>orig z node'. map_of (tabs s) k = Some orig \<and> nodeType orig = Tab
                     \<and> z \<in> set (zs @ [zt]) \<and> zt_id z = m \<and> title orig = getTabTitle items z
                     \<and> map_of ?T m = Some node' \<and> sameLinks node' orig)"
    if k: "map_of (mig @ [(tabId, ?n)]) k = Some m" for k m
  proof (cases "map_of mig k")
    case None
    with k have e: "k = tabId" "m = ?n" by (auto simp: map_of_snoc split: if_splits)
    have "map_of ?T tabId = None" using ne by (simp add: T)
    moreover have "map_of (tabs s) tabId = Some ex \<and> nodeType ex = Tab
                     \<and> zt \<in> set (zs @ [zt]) \<and> zt_id zt = ?n \<and> title ex = getTabTitle items zt
                     \<and> map_of ?T ?n = Some ?ex \<and> sameLinks ?ex ex"
      using orig0 same tab ttl by (simp add: T sameLinks_def)
    ultimately show ?thesis unfolding e by blast
  next
    case (Some m')
    with k have e: "m' = m" by (simp add: map_of_snoc)
    from B Some e have b1: "k \<notin> set cur \<longrightarrow> map_of (tabs s') k = None"
      and b2: "\<exists>orig z node'. map_of (tabs s) k = Some orig \<and> nodeType orig = Tab
                     \<and> z \<in> set zs \<and> zt_id z = m \<and> title orig = getTabTitle items z
                     \<and> map_of (tabs s') m = Some node' \<and> sameLinks node' orig"
      by blast+
    have "m \<in> set cur" using rn map_of_SomeD [OF Some] e by force
    then have m: "m \<noteq> ?n" "m \<noteq> tabId" using n0 nc0 by auto
    have "k \<notin> set (setAdd cur ?n) \<longrightarrow> map_of ?T k = None"
      using b1 by (simp add: T cur')
    moreover from b2 obtain orig z node' where
      "map_of (tabs s) k = Some orig" "nodeType orig = Tab" "z \<in> set zs" "zt_id z = m"
      "title orig = getTabTitle items z" "map_of (tabs s') m = Some node'" "sameLinks node' orig"
      by blast
    then have "map_of (tabs s) k = Some orig \<and> nodeType orig = Tab
                     \<and> z \<in> set (zs @ [zt]) \<and> zt_id z = m \<and> title orig = getTabTitle items z
                     \<and> map_of ?T m = Some node' \<and> sameLinks node' orig"
      using m by (simp add: T)
    ultimately show ?thesis by blast
  qed
  have 8: "\<exists>extra. roots (s'\<lparr>tabs := ?T\<rparr>) = roots s @ extra" using rt by simp
  have 9: "collapsedSet (s'\<lparr>tabs := ?T\<rparr>) = collapsedSet s" using cs by simp
  show ?thesis
    unfolding mig'
    by (rule passInvI) (use 1 2 3 4 5 6 7 8 9 in simp_all)
qed

lemma passInv_add:
  assumes inv: "passInv items s zs (s', cur, mig)"
    and fresh: "zt_id zt \<notin> set (map zt_id zs)"
    and new: "\<not> mapHas (tabs s') (zt_id zt)"
  shows "passInv items s (zs @ [zt])
           (addTab s' (zt_id zt) ttl ty None, setAdd cur (zt_id zt), mig)"
proof -
  let ?n = "zt_id zt"
  let ?T = "tabs s' @ [(?n, newNode ?n None ttl ty Tab)]"
  note c = passInvD(1) [OF inv] and d = passInvD(2) [OF inv] and o = passInvD(3) [OF inv]
    and ks = passInvD(4) [OF inv] and rn = passInvD(5) [OF inv] and rt = passInvD(6) [OF inv]
    and cs = passInvD(7) [OF inv] and A = passInvD(8) [OF inv] and B = passInvD(9) [OF inv]
  have cur': "set (setAdd cur ?n) = insert ?n (set cur)" by (auto simp: setAdd_def)
  have st: "addTab s' ?n ttl ty None = s'\<lparr>tabs := ?T, roots := roots s' @ [?n]\<rparr>"
    using new by (simp add: addTab_def insertNode_def truthyId_def newNode_def mapSet_def)
  have none: "map_of (tabs s') ?n = None" using new by (simp add: mapHas_map_of)
  have T: "\<And>k. map_of ?T k
             = (case map_of (tabs s') k of Some x \<Rightarrow> Some x
                | None \<Rightarrow> if k = ?n then Some (newNode ?n None ttl ty Tab) else None)"
    by (rule map_of_snoc)
  have 1: "set (setAdd cur ?n) = set (map zt_id (zs @ [zt]))" using cur' c by auto
  have 2: "distinct (map fst ?T)" using d new by (simp add: mapHas_def)
  have 3: "ownIds ?T" using o by (simp add: ownIds_def newNode_def)
  have 4: "set (map fst ?T) \<subseteq> set (map fst (tabs s)) \<union> set (setAdd cur ?n)"
    using ks by (auto simp: cur')
  have 5: "snd ` set mig \<subseteq> set (setAdd cur ?n)" using rn by (auto simp: cur')
  have 6: "\<exists>node'. map_of ?T k = Some node' \<and> sameLinks node' orig
                      \<and> (k \<notin> set (setAdd cur ?n) \<longrightarrow> node' = orig)"
    if k: "map_of (tabs s) k = Some orig" "map_of mig k = None" "k \<notin> snd ` set mig"
    for k orig
  proof -
    from A k obtain node' where
      "map_of (tabs s') k = Some node'" "sameLinks node' orig" "k \<notin> set cur \<longrightarrow> node' = orig"
      by blast
    then show ?thesis by (simp add: T cur')
  qed
  have 7: "(k \<notin> set (setAdd cur ?n) \<longrightarrow> map_of ?T k = None)
              \<and> (\<exists>orig z node'. map_of (tabs s) k = Some orig \<and> nodeType orig = Tab
                     \<and> z \<in> set (zs @ [zt]) \<and> zt_id z = m \<and> title orig = getTabTitle items z
                     \<and> map_of ?T m = Some node' \<and> sameLinks node' orig)"
    if k: "map_of mig k = Some m" for k m
  proof -
    from B k have b1: "k \<notin> set cur \<longrightarrow> map_of (tabs s') k = None"
      and b2: "\<exists>orig z node'. map_of (tabs s) k = Some orig \<and> nodeType orig = Tab
                     \<and> z \<in> set zs \<and> zt_id z = m \<and> title orig = getTabTitle items z
                     \<and> map_of (tabs s') m = Some node' \<and> sameLinks node' orig"
      by blast+
    have "k \<notin> set (setAdd cur ?n) \<longrightarrow> map_of ?T k = None"
      using b1 by (simp add: T cur')
    moreover from b2 obtain orig z node' where
      "map_of (tabs s) k = Some orig" "nodeType orig = Tab" "z \<in> set zs" "zt_id z = m"
      "title orig = getTabTitle items z" "map_of (tabs s') m = Some node'" "sameLinks node' orig"
      by blast
    then have "map_of (tabs s) k = Some orig \<and> nodeType orig = Tab
                     \<and> z \<in> set (zs @ [zt]) \<and> zt_id z = m \<and> title orig = getTabTitle items z
                     \<and> map_of ?T m = Some node' \<and> sameLinks node' orig"
      by (simp add: T)
    ultimately show ?thesis by blast
  qed
  have 8: "\<exists>extra. roots (s'\<lparr>tabs := ?T, roots := roots s' @ [?n]\<rparr>) = roots s @ extra"
    using rt by auto
  have 9: "collapsedSet (s'\<lparr>tabs := ?T, roots := roots s' @ [?n]\<rparr>) = collapsedSet s"
    using cs by simp
  show ?thesis
    unfolding st
    by (rule passInvI) (use 1 2 3 4 5 6 7 8 9 in simp_all)
qed

lemma passInv_update:
  assumes inv: "passInv items s zs (s', cur, mig)"
    and fresh: "zt_id zt \<notin> set (map zt_id zs)"
  shows "passInv items s (zs @ [zt])
           (s'\<lparr>tabs := mapModify (tabs s') (zt_id zt)
                          (\<lambda>n. n\<lparr>title := ttl, type := ty, selected := b\<rparr>)\<rparr>,
            setAdd cur (zt_id zt), mig)"
proof -
  let ?n = "zt_id zt"
  let ?g = "\<lambda>n :: TabNode. n\<lparr>title := ttl, type := ty, selected := b\<rparr>"
  let ?T = "mapModify (tabs s') ?n ?g"
  note c = passInvD(1) [OF inv] and d = passInvD(2) [OF inv] and o = passInvD(3) [OF inv]
    and ks = passInvD(4) [OF inv] and rn = passInvD(5) [OF inv] and rt = passInvD(6) [OF inv]
    and cs = passInvD(7) [OF inv] and A = passInvD(8) [OF inv] and B = passInvD(9) [OF inv]
  have cur': "set (setAdd cur ?n) = insert ?n (set cur)" by (auto simp: setAdd_def)
  have n0: "?n \<notin> set cur" using fresh c by simp
  have T: "\<And>k. map_of ?T k = (if k = ?n then map_option ?g (map_of (tabs s') ?n)
                                 else map_of (tabs s') k)"
    by (rule map_of_mapModify)
  have 1: "set (setAdd cur ?n) = set (map zt_id (zs @ [zt]))" using cur' c by auto
  have 2: "distinct (map fst ?T)" using d by (simp add: map_fst_mapModify)
  have 3: "ownIds ?T" by (intro ownIds_mapModify o) simp
  have 4: "set (map fst ?T) \<subseteq> set (map fst (tabs s)) \<union> set (setAdd cur ?n)"
    using ks by (auto simp: cur' map_fst_mapModify)
  have 5: "snd ` set mig \<subseteq> set (setAdd cur ?n)" using rn by (auto simp: cur')
  have 6: "\<exists>node'. map_of ?T k = Some node' \<and> sameLinks node' orig
                      \<and> (k \<notin> set (setAdd cur ?n) \<longrightarrow> node' = orig)"
    if k: "map_of (tabs s) k = Some orig" "map_of mig k = None" "k \<notin> snd ` set mig"
    for k orig
  proof -
    from A k obtain node' where
      "map_of (tabs s') k = Some node'" "sameLinks node' orig" "k \<notin> set cur \<longrightarrow> node' = orig"
      by blast
    then show ?thesis by (cases "k = ?n") (simp_all add: T cur' sameLinks_def)
  qed
  have 7: "(k \<notin> set (setAdd cur ?n) \<longrightarrow> map_of ?T k = None)
              \<and> (\<exists>orig z node'. map_of (tabs s) k = Some orig \<and> nodeType orig = Tab
                     \<and> z \<in> set (zs @ [zt]) \<and> zt_id z = m \<and> title orig = getTabTitle items z
                     \<and> map_of ?T m = Some node' \<and> sameLinks node' orig)"
    if k: "map_of mig k = Some m" for k m
  proof -
    from B k have b1: "k \<notin> set cur \<longrightarrow> map_of (tabs s') k = None"
      and b2: "\<exists>orig z node'. map_of (tabs s) k = Some orig \<and> nodeType orig = Tab
                     \<and> z \<in> set zs \<and> zt_id z = m \<and> title orig = getTabTitle items z
                     \<and> map_of (tabs s') m = Some node' \<and> sameLinks node' orig"
      by blast+
    have "m \<in> set cur" using rn map_of_SomeD [OF k] by force
    then have m: "m \<noteq> ?n" using n0 by auto
    have "k \<notin> set (setAdd cur ?n) \<longrightarrow> map_of ?T k = None"
      using b1 by (simp add: T cur')
    moreover from b2 obtain orig z node' where
      "map_of (tabs s) k = Some orig" "nodeType orig = Tab" "z \<in> set zs" "zt_id z = m"
      "title orig = getTabTitle items z" "map_of (tabs s') m = Some node'" "sameLinks node' orig"
      by blast
    then have "map_of (tabs s) k = Some orig \<and> nodeType orig = Tab
                     \<and> z \<in> set (zs @ [zt]) \<and> zt_id z = m \<and> title orig = getTabTitle items z
                     \<and> map_of ?T m = Some node' \<and> sameLinks node' orig"
      using m by (simp add: T)
    ultimately show ?thesis by blast
  qed
  have 8: "\<exists>extra. roots (s'\<lparr>tabs := ?T\<rparr>) = roots s @ extra" using rt by simp
  have 9: "collapsedSet (s'\<lparr>tabs := ?T\<rparr>) = collapsedSet s" using cs by simp
  show ?thesis
    by (rule passInvI) (use 1 2 3 4 5 6 7 8 9 in simp_all)
qed

lemma passInv_step:
  assumes "passInv items s zs acc" and "zt_id zt \<notin> set (map zt_id zs)"
  shows "passInv items s (zs @ [zt]) (syncTab items sel acc zt)"
proof -
  obtain s' cur mig where acc: "acc = (s', cur, mig)" by (cases acc) auto
  show ?thesis
  proof (cases "findExistingNode (tabs s') (getTabTitle items zt) (setAdd cur (zt_id zt))")
    case None
    then show ?thesis
      using passInv_add [OF assms [unfolded acc]] passInv_update [OF assms [unfolded acc]]
      by (simp add: syncTab_def acc Let_def)
  next
    case (Some e)
    then obtain tabId ex where e: "e = (tabId, ex)" by (cases e) auto
    show ?thesis
      using passInv_migrate [OF assms [unfolded acc] Some [unfolded e]]
      by (simp add: syncTab_def acc Let_def Some e)
  qed
qed

lemma passInv_fold:
  assumes "distinct (map fst (tabs s))" and "ownIds (tabs s)"
  shows "distinct (map zt_id zs) \<Longrightarrow>
           passInv items s zs (foldl (syncTab items sel) (s, [], []) zs)"
proof (induction zs rule: rev_induct)
  case Nil
  show ?case using assms by (simp add: passInv_start)
next
  case (snoc zt zs)
  then have "passInv items s zs (foldl (syncTab items sel) (s, [], []) zs)"
    and "zt_id zt \<notin> set (map zt_id zs)" by simp_all
  then show ?case by (simp add: passInv_step)
qed

subsection \<open>Relabelling: the second pass\<close>

lemma map_of_map_snd: "map_of (map (\<lambda>e. (fst e, g (snd e))) t) k = map_option g (map_of t k)"
  by (induction t) auto

lemma migrated_target:
  assumes "snd ` set mig \<subseteq> C" and "[] \<notin> C" and "old \<notin> C" and "map_of mig old = Some new"
  shows "migrated mig x \<noteq> old" and "migrated mig old = new"
proof -
  have t: "m \<in> C \<and> m \<noteq> []" if "map_of mig k = Some m" for k m
    using map_of_SomeD [OF that] assms(1,2) by force
  show "migrated mig x \<noteq> old"
  proof (cases "map_of mig x")
    case None
    then show ?thesis using assms(4) by (auto simp: migrated_def)
  next
    case (Some m)
    then show ?thesis using t [OF Some] assms(3) by (auto simp: migrated_def orElse_def truthy_def)
  qed
  show "migrated mig old = new"
    using t [OF assms(4)] assms(4) by (simp add: migrated_def orElse_def truthy_def)
qed

lemma migrate_parent:
  assumes "\<not> mapHas mig []" and "[] \<notin> snd ` set mig"
  shows "(if truthyId p \<and> mapHas mig (idStr p) then map_of mig (idStr p) else p)
           = map_option (migrated mig) p"
proof (cases p)
  case None
  then show ?thesis by (simp add: truthyId_def)
next
  case (Some q)
  show ?thesis
  proof (cases "map_of mig q")
    case None
    then show ?thesis using Some by (simp add: mapHas_map_of migrated_def idStr_def)
  next
    case m: (Some m)
    then have "m \<noteq> []" using map_of_SomeD [OF m] assms(2) by force
    moreover have "q \<noteq> []" using m assms(1) by (auto simp: mapHas_map_of)
    ultimately show ?thesis
      using Some m
      by (simp add: mapHas_map_of migrated_def idStr_def truthyId_def truthy_def orElse_def)
  qed
qed

lemma migrateIds_eq:
  assumes "mig \<noteq> []" and "\<not> mapHas mig []" and "[] \<notin> snd ` set mig"
  shows "migrateIds mig s =
           s\<lparr>tabs := map (\<lambda>e. (fst e,
                               (snd e)\<lparr>parentId := map_option (migrated mig) (parentId (snd e)),
                                       childIds := map (migrated mig) (childIds (snd e))\<rparr>))
                      (tabs s),
             roots := map (migrated mig) (roots s),
             collapsedSet := foldl setAdd [] (map (migrated mig) (collapsedSet s))\<rparr>"
  using assms(1) by (simp add: migrateIds_def migrate_parent [OF assms(2,3)])

text \<open>
  What the two relabelling passes do for a relabelled node. When the first pass of the
  reconciler relabels a stored tab from \<open>old\<close> to the
  reported id \<open>new\<close> (the stored node is a tab with exactly the title of the reported tab,
  and \<open>old\<close> is not a reported id), then after the second pass the node is stored under
  \<open>new\<close> only, with its parent link and its child list carried through the relabelling
  and its level and collapsed flag kept; no root entry, collapsed entry, parent link or
  child list holds \<open>old\<close> any more; the roots and the collapsed set of the start are the
  relabelled ones; and a child \<open>y\<close> of the node, unless another relabelling has taken its
  id, has the parent \<open>new\<close> and is listed among the children of the node. The store
  holds its nodes under their own non-empty ids, once each, and the reported ids are
  distinct and non-empty.
\<close>

lemma migration_updates_references:
  assumes "distinct (map fst (tabs s))" and "ownIds (tabs s)" and "\<not> mapHas (tabs s) []"
    and "distinct (map zt_id zs)" and "[] \<notin> set (map zt_id zs)"
    and "foldl (syncTab items sel) (s, [], []) zs = (s1, cur, mig)"
    and "map_of mig old = Some new" and "old \<notin> set (map zt_id zs)"
  shows "\<exists>X X' zt.
           map_of (tabs s) old = Some X \<and> nodeType X = Tab
           \<and> zt \<in> set zs \<and> zt_id zt = new \<and> title X = getTabTitle items zt
           \<and> map_of (tabs (migrateIds mig s1)) old = None
           \<and> map_of (tabs (migrateIds mig s1)) new = Some X' \<and> id_n X' = new
           \<and> parentId X' = map_option (migrated mig) (parentId X)
           \<and> childIds X' = map (migrated mig) (childIds X)
           \<and> level X' = level X \<and> collapsed X' = collapsed X
           \<and> migrated mig old = new
           \<and> \<not> refersTo (migrateIds mig s1) old
           \<and> take (length (roots s)) (roots (migrateIds mig s1)) = map (migrated mig) (roots s)
           \<and> set (collapsedSet (migrateIds mig s1)) = migrated mig ` set (collapsedSet s)
           \<and> (\<forall>y Y. y \<in> set (childIds X) \<longrightarrow> map_of (tabs s) y = Some Y
                  \<longrightarrow> parentId Y = Some old
                  \<longrightarrow> (map_of mig y = None \<longrightarrow> y \<notin> snd ` set mig)
                  \<longrightarrow> (\<exists>Y'. map_of (tabs (migrateIds mig s1)) (migrated mig y) = Some Y'
                            \<and> parentId Y' = Some new
                            \<and> childIds Y' = map (migrated mig) (childIds Y)
                            \<and> migrated mig y \<in> set (childIds X')))"
proof -
  let ?s2 = "migrateIds mig s1"
  let ?g = "\<lambda>n :: TabNode. n\<lparr>parentId := map_option (migrated mig) (parentId n),
                               childIds := map (migrated mig) (childIds n)\<rparr>"
  have inv: "passInv items s zs (s1, cur, mig)"
    using passInv_fold [OF assms(1,2,4), of items sel] assms(6) by simp
  note c = passInvD(1) [OF inv] and o = passInvD(3) [OF inv]
    and rn = passInvD(5) [OF inv] and rt = passInvD(6) [OF inv]
    and cs = passInvD(7) [OF inv] and A = passInvD(8) [OF inv] and B = passInvD(9) [OF inv]
  have C0: "[] \<notin> set cur" "old \<notin> set cur" using assms(5,8) c by simp_all
  have ne: "mig \<noteq> []" using assms(7) by auto
  have k0: "\<not> mapHas mig []"
  proof
    assume "mapHas mig []"
    then obtain m where "map_of mig [] = Some m" by (auto simp: mapHas_map_of)
    with B have "mapHas (tabs s) []" by (blast intro: map_of_mapHas)
    with assms(3) show False by simp
  qed
  have t0: "[] \<notin> snd ` set mig" using rn C0(1) by auto
  note eq = migrateIds_eq [OF ne k0 t0]
  have look: "\<And>k. map_of (tabs ?s2) k = map_option ?g (map_of (tabs s1) k)"
    using map_of_map_snd [of ?g "tabs s1"] by (simp add: eq)
  note mt = migrated_target [OF rn C0 assms(7)]
  from B assms(7) C0(2) obtain X z X1 where
    x: "map_of (tabs s) old = Some X" "nodeType X = Tab" "z \<in> set zs" "zt_id z = new"
       "title X = getTabTitle items z" "map_of (tabs s1) new = Some X1" "sameLinks X1 X"
    and gone: "map_of (tabs s1) old = None"
    by blast
  have 1: "map_of (tabs ?s2) old = None" using gone by (simp add: look)
  have 2: "map_of (tabs ?s2) new = Some (?g X1)" using x(6) by (simp add: look)
  have 3: "id_n (?g X1) = new" using ownIds_map_of [OF o x(6)] by simp
  have 4: "parentId (?g X1) = map_option (migrated mig) (parentId X)"
          "childIds (?g X1) = map (migrated mig) (childIds X)"
          "level (?g X1) = level X" "collapsed (?g X1) = collapsed X"
    using x(7) by (simp_all add: sameLinks_def)
  have 5: "\<not> refersTo ?s2 old"
  proof -
    have "old \<notin> migrated mig ` S" for S using mt(1) by auto
    moreover have "map_option (migrated mig) p \<noteq> Some old" for p
      using mt(1) by (cases p) auto
    ultimately show ?thesis
      by (simp add: refersTo_def eq list_ex_iff set_foldl_setAdd)
  qed
  have 6: "take (length (roots s)) (roots ?s2) = map (migrated mig) (roots s)"
    using rt by (auto simp: eq)
  have 7: "set (collapsedSet ?s2) = migrated mig ` set (collapsedSet s)"
    by (simp add: eq cs set_foldl_setAdd)
  have 8: "\<exists>Y'. map_of (tabs ?s2) (migrated mig y) = Some Y' \<and> parentId Y' = Some new
                \<and> childIds Y' = map (migrated mig) (childIds Y)
                \<and> migrated mig y \<in> set (childIds (?g X1))"
    if y: "y \<in> set (childIds X)" "map_of (tabs s) y = Some Y" "parentId Y = Some old"
          "map_of mig y = None \<longrightarrow> y \<notin> snd ` set mig" for y Y
  proof -
    have "\<exists>Y1. map_of (tabs s1) (migrated mig y) = Some Y1 \<and> sameLinks Y1 Y"
    proof (cases "map_of mig y")
      case None
      with A y(2,4) obtain Y1 where "map_of (tabs s1) y = Some Y1" "sameLinks Y1 Y" by blast
      then show ?thesis using None by (auto simp: migrated_def)
    next
      case (Some m)
      with B y(2) obtain Y1 where "map_of (tabs s1) m = Some Y1" "sameLinks Y1 Y" by fastforce
      moreover have "m \<noteq> []" using map_of_SomeD [OF Some] t0 by force
      ultimately show ?thesis using Some by (auto simp: migrated_def orElse_def truthy_def)
    qed
    then obtain Y1 where "map_of (tabs s1) (migrated mig y) = Some Y1" "sameLinks Y1 Y" by blast
    then have "map_of (tabs ?s2) (migrated mig y) = Some (?g Y1)"
      "parentId (?g Y1) = Some new" "childIds (?g Y1) = map (migrated mig) (childIds Y)"
      using y(3) mt(2) by (simp_all add: look sameLinks_def)
    moreover have "migrated mig y \<in> set (childIds (?g X1))" using y(1) 4(2) by simp
    ultimately show ?thesis by blast
  qed
  have eight: "\<forall>y Y. y \<in> set (childIds X) \<longrightarrow> map_of (tabs s) y = Some Y
                  \<longrightarrow> parentId Y = Some old
                  \<longrightarrow> (map_of mig y = None \<longrightarrow> y \<notin> snd ` set mig)
                  \<longrightarrow> (\<exists>Y'. map_of (tabs ?s2) (migrated mig y) = Some Y'
                            \<and> parentId Y' = Some new
                            \<and> childIds Y' = map (migrated mig) (childIds Y)
                            \<and> migrated mig y \<in> set (childIds (?g X1)))"
    using 8 by blast
  show ?thesis
    by (insert x(1-5) 1 2 3 4 mt(2) 5 6 7 eight,
        intro exI [of _ X] exI [of _ "?g X1"] exI [of _ z] conjI; assumption)
qed

subsection \<open>Relabelling: the example of a relabelled parent\<close>

lemma reported_fields:
  "zt_id reportedNew1 = ''new1''" "zt_type reportedNew1 = ''reader''"
  "getTabTitle items reportedNew1 = ''Paper.pdf''"
  "zt_id reportedY1 = ''y1''" "zt_type reportedY1 = ''reader''"
  "getTabTitle items reportedY1 = ''Notes''"
  by (simp_all add: reportedNew1_def reportedY1_def getTabTitle_def truthy_def isSpace_def
        isSpace2_def isSpace3_def)

lemma first_pass_XY:
  "foldl (syncTab items (Some ''new1'')) (stateXY, [], []) [reportedNew1, reportedY1]
     = (passedXY, [''new1'', ''y1''], [(''old1'', ''new1'')])"
  by (simp add: syncTab_def findExistingNode_def reported_fields setAdd_def Let_def
        emptyState_def newNode_def mapHas_def mapSet_def mapDelete_def mapModify_def
        stateXY_def passedXY_def nodeX_def nodeY_def)

text \<open>
  The whole reconciliation of that report: both tabs are reported, so the removal pass
  keeps them, and the relabelled parent and its child come out linked under \<open>new1\<close>.
\<close>

lemma sync_XY:
  "syncWithZoteroTabs 3 items noPrefs (Some [reportedNew1, reportedY1]) (Some ''new1'') stateXY
     = Some (emptyState\<lparr>tabs := [(''y1'', nodeY\<lparr>parentId := Some ''new1''\<rparr>),
                                 (''new1'', nodeX\<lparr>id_n := ''new1'', selected := True\<rparr>)],
                        roots := [''new1''], collapsedSet := [''new1'']\<rparr>)"
  unfolding syncWithZoteroTabs_def option.case first_pass_XY prod.case
  by (simp add: eval_nat_numeral migrateIds_def migrated_def orElse_def
        idStr_def truthyId_def truthy_def mapHas_def mapModify_def setAdd_def
        updateSelection_def recalculateLevels_def levelOf_def emptyState_def passedXY_def
        nodeX_def nodeY_def newNode_def)

lemma migration_updates_references_witness:
  "distinct (map fst (tabs stateXY)) \<and> ownIds (tabs stateXY) \<and> \<not> mapHas (tabs stateXY) []
   \<and> distinct (map zt_id [reportedNew1, reportedY1])
   \<and> [] \<notin> set (map zt_id [reportedNew1, reportedY1])
   \<and> foldl (syncTab (\<lambda>_. None) (Some ''new1'')) (stateXY, [], []) [reportedNew1, reportedY1]
        = (passedXY, [''new1'', ''y1''], [(''old1'', ''new1'')])
   \<and> map_of [(''old1'', ''new1'')] ''old1'' = Some ''new1''
   \<and> ''old1'' \<notin> set (map zt_id [reportedNew1, reportedY1])
   \<and> map_of (tabs stateXY) ''old1'' = Some nodeX \<and> map_of (tabs stateXY) ''y1'' = Some nodeY
   \<and> map_of (tabs (migrateIds [(''old1'', ''new1'')] passedXY)) ''old1'' = None
   \<and> (\<exists>X' Y'. map_of (tabs (migrateIds [(''old1'', ''new1'')] passedXY)) ''new1'' = Some X'
         \<and> id_n X' = ''new1'' \<and> parentId X' = None \<and> childIds X' = [''y1''] \<and> collapsed X'
         \<and> map_of (tabs (migrateIds [(''old1'', ''new1'')] passedXY)) ''y1'' = Some Y'
         \<and> parentId Y' = Some ''new1'' \<and> childIds Y' = [])
   \<and> \<not> refersTo (migrateIds [(''old1'', ''new1'')] passedXY) ''old1''
   \<and> roots (migrateIds [(''old1'', ''new1'')] passedXY) = [''new1'']
   \<and> set (collapsedSet (migrateIds [(''old1'', ''new1'')] passedXY)) = {''new1''}"
proof -
  let ?mig = "[(''old1'', ''new1'')]"
  let ?s2 = "migrateIds ?mig passedXY"
  have h1: "distinct (map fst (tabs stateXY))" "ownIds (tabs stateXY)"
    "\<not> mapHas (tabs stateXY) []"
    by (simp_all add: stateXY_def ownIds_def mapHas_def nodeX_def nodeY_def newNode_def)
  have h2: "distinct (map zt_id [reportedNew1, reportedY1])"
    "[] \<notin> set (map zt_id [reportedNew1, reportedY1])"
    "''old1'' \<notin> set (map zt_id [reportedNew1, reportedY1])"
    by (simp_all add: reported_fields)
  have h3: "map_of ?mig ''old1'' = Some ''new1''" by simp
  have x: "map_of (tabs stateXY) ''old1'' = Some nodeX" "map_of (tabs stateXY) ''y1'' = Some nodeY"
    by (simp_all add: stateXY_def)
  have m: "migrated ?mig ''old1'' = ''new1''" "migrated ?mig ''y1'' = ''y1''"
    by (simp_all add: migrated_def orElse_def truthy_def)
  have f: "childIds nodeX = [''y1'']" "parentId nodeX = None" "collapsed nodeX"
    "parentId nodeY = Some ''old1''" "childIds nodeY = []"
    "roots stateXY = [''old1'']" "collapsedSet stateXY = [''old1'']"
    by (simp_all add: nodeX_def nodeY_def newNode_def stateXY_def)
  from migration_updates_references
         [OF h1 h2(1,2) first_pass_XY h3 h2(3), of "\<lambda>_. None"] x(1)
  obtain X' where
    1: "map_of (tabs ?s2) ''old1'' = None"
    and 2: "map_of (tabs ?s2) ''new1'' = Some X'" "id_n X' = ''new1''"
       "parentId X' = map_option (migrated ?mig) (parentId nodeX)"
       "childIds X' = map (migrated ?mig) (childIds nodeX)" "collapsed X' = collapsed nodeX"
    and 3: "\<not> refersTo ?s2 ''old1''"
    and 4: "take (length (roots stateXY)) (roots ?s2) = map (migrated ?mig) (roots stateXY)"
    and 5: "set (collapsedSet ?s2) = migrated ?mig ` set (collapsedSet stateXY)"
    and 6: "\<forall>y Y. y \<in> set (childIds nodeX) \<longrightarrow> map_of (tabs stateXY) y = Some Y
                  \<longrightarrow> parentId Y = Some ''old1''
                  \<longrightarrow> (map_of ?mig y = None \<longrightarrow> y \<notin> snd ` set ?mig)
                  \<longrightarrow> (\<exists>Y'. map_of (tabs ?s2) (migrated ?mig y) = Some Y'
                            \<and> parentId Y' = Some ''new1''
                            \<and> childIds Y' = map (migrated ?mig) (childIds Y)
                            \<and> migrated ?mig y \<in> set (childIds X'))"
    by auto
  from 6 [rule_format, of "''y1''" nodeY] x(2) f obtain Y' where
    7: "map_of (tabs ?s2) ''y1'' = Some Y'" "parentId Y' = Some ''new1''" "childIds Y' = []"
    by (auto simp: m)
  have 8: "parentId X' = None" "childIds X' = [''y1'']" "collapsed X'"
    using 2 f by (simp_all add: m)
  have 9: "roots ?s2 = [''new1'']"
    using 4 by (simp add: f m migrateIds_def passedXY_def)
  have 10: "set (collapsedSet ?s2) = {''new1''}" using 5 by (simp add: f m)
  have ex: "\<exists>X' Y'. map_of (tabs ?s2) ''new1'' = Some X'
         \<and> id_n X' = ''new1'' \<and> parentId X' = None \<and> childIds X' = [''y1''] \<and> collapsed X'
         \<and> map_of (tabs ?s2) ''y1'' = Some Y'
         \<and> parentId Y' = Some ''new1'' \<and> childIds Y' = []"
    using 2(1,2) 8 7 by blast
  show ?thesis
    by (insert h1 h2 first_pass_XY [of "\<lambda>_. None"] h3 x 1 ex 3 9 10, intro conjI; assumption)
qed

subsection \<open>A relabelled node written over a stored one\<close>

lemmas pass_eval =
  syncTab_def findExistingNode_def setAdd_def Let_def emptyState_def addTab_def insertNode_def
  newNode_def truthyId_def truthy_def mapHas_def mapSet_def mapDelete_def mapModify_def

lemmas rest_eval =
  eval_nat_numeral migrateIds_def migrated_def orElse_def idStr_def truthyId_def truthy_def
  mapHas_def mapModify_def setAdd_def updateSelection_def recalculateLevels_def levelOf_def
  emptyState_def newNode_def

lemma reportedWN_fields:
  "zt_id reportedW1 = ''w1''" "zt_type reportedW1 = ''reader''"
  "getTabTitle items reportedW1 = ''Other''"
  "zt_id reportedN1 = ''n1''" "zt_type reportedN1 = ''reader''"
  "getTabTitle items reportedN1 = ''New''"
  by (simp_all add: reportedW1_def reportedN1_def getTabTitle_def truthy_def isSpace_def
        isSpace2_def isSpace3_def)

lemmas relabel_nodes = nodeG_def nodeOld1_def nodeY1_def nodeW1_def nodeZ1_def nodeR1_def

lemma first_pass_relabel:
  "foldl (syncTab items (Some ''new1'')) (stateRelabel, [], [])
       [reportedNew1, reportedY1, reportedW1, reportedN1]
     = (emptyState\<lparr>tabs := [(''g'', nodeG), (''y1'', nodeZ1\<lparr>id_n := ''y1''\<rparr>),
                             (''w1'', nodeW1), (''r1'', nodeR1),
                             (''new1'', nodeOld1\<lparr>id_n := ''new1'', selected := True\<rparr>),
                             (''n1'', newNode ''n1'' None ''New'' ''reader'' Tab)],
                     roots := [''g'', ''z1'', ''r1'', ''n1''], collapsedSet := [''old1'']\<rparr>,
        [''new1'', ''y1'', ''w1'', ''n1''], [(''old1'', ''new1''), (''z1'', ''y1'')])"
  by (simp add: pass_eval reported_fields reportedWN_fields stateRelabel_def relabel_nodes)

lemma valid_stateRelabel: "validTree stateRelabel"
  by (simp add: validTree_def stateRelabel_def relabel_nodes newNode_def ownIds_def mapHas_def
        nodeAt_def emptyState_def)

text \<open>
  Claim C3. In a valid tree the stored tab \<open>old1\<close>, titled \<open>Paper.pdf\<close>, has the
  children \<open>y1\<close>, titled \<open>Notes\<close>, and \<open>w1\<close>; the tab \<open>z1\<close>, also titled \<open>Notes\<close>, is a
  root. The host reports \<open>new1\<close>, titled \<open>Paper.pdf\<close>, then \<open>y1\<close>, \<open>w1\<close> and a new tab.
  The reconciliation relabels \<open>old1\<close> to \<open>new1\<close> and renames the references to \<open>old1\<close>:
  the child list of its parent, the parent of \<open>w1\<close>, the collapsed set. For the reported
  \<open>y1\<close>, which is in the store, it searches a node to relabel before it tests
  \<open>tabs.has\<close>, finds \<open>z1\<close> and stores that node under \<open>y1\<close>, over the child: the node
  under \<open>y1\<close> ends without parent, as a root, while \<open>new1\<close> still lists \<open>y1\<close> as its
  child.
\<close>

theorem sync_relabel_overwrites_child:
  "validTree stateRelabel
   \<and> map_of (tabs stateRelabel) ''old1'' = Some nodeOld1
   \<and> childIds nodeOld1 = [''y1'', ''w1'']
   \<and> map_of (tabs stateRelabel) ''y1'' = Some nodeY1 \<and> parentId nodeY1 = Some ''old1''
   \<and> syncWithZoteroTabs 3 (\<lambda>_. None) noPrefs
        (Some [reportedNew1, reportedY1, reportedW1, reportedN1]) (Some ''new1'') stateRelabel
      = Some syncedRelabel
   \<and> map_of (tabs syncedRelabel) ''new1'' = Some (nodeOld1\<lparr>id_n := ''new1'', selected := True\<rparr>)
   \<and> childIds (nodeOld1\<lparr>id_n := ''new1'', selected := True\<rparr>) = [''y1'', ''w1'']
   \<and> map_of (tabs syncedRelabel) ''w1'' = Some (nodeW1\<lparr>parentId := Some ''new1''\<rparr>)
   \<and> map_of (tabs syncedRelabel) ''y1'' = Some (nodeZ1\<lparr>id_n := ''y1''\<rparr>)
   \<and> parentId (nodeZ1\<lparr>id_n := ''y1''\<rparr>) = None
   \<and> roots syncedRelabel = [''g'', ''y1'', ''n1'']"
proof -
  have "syncWithZoteroTabs 3 (\<lambda>_. None) noPrefs
          (Some [reportedNew1, reportedY1, reportedW1, reportedN1]) (Some ''new1'') stateRelabel
        = Some syncedRelabel"
    unfolding syncWithZoteroTabs_def option.case first_pass_relabel prod.case
    by (simp add: rest_eval removeTabFromTree_def removeNodeFromTree_def noPrefs_def
          setDelete_def mapDelete_def syncedRelabel_def relabel_nodes)
  then show ?thesis
    using valid_stateRelabel
    by (simp add: stateRelabel_def syncedRelabel_def relabel_nodes newNode_def)
qed

subsection \<open>A new tab that takes the place of a reported one\<close>

lemma reportedPT_fields:
  "zt_id reportedP = ''p''" "zt_type reportedP = ''reader''"
  "getTabTitle items reportedP = ''P''"
  "zt_id reportedT3 = ''t3''" "zt_type reportedT3 = ''reader''"
  "getTabTitle items reportedT3 = ''Same''"
  "zt_title reportedT3 = ''Same''"
  by (simp_all add: reportedP_def reportedT3_def getTabTitle_def truthy_def isSpace_def
        isSpace2_def isSpace3_def)

lemma first_pass_PT:
  "foldl (syncTab items (Some ''p'')) (statePT, [], []) [reportedP, reportedT3, tabSame2]
     = (emptyState\<lparr>tabs := [(''p'', nodeP\<lparr>selected := True\<rparr>),
                             (''t3'', nodeT2\<lparr>id_n := ''t3''\<rparr>),
                             (''t2'', newNode ''t2'' None ''Same'' ''reader'' Tab)],
                     roots := [''p'', ''t2'']\<rparr>,
        [''p'', ''t3'', ''t2''], [(''t2'', ''t3'')])"
  by (simp add: pass_eval reportedPT_fields title_same2 tabSame_fields statePT_def nodeP_def
        nodeT2_def)

text \<open>
  Claim C6. The store, a valid tree, holds the root \<open>p\<close> and its child \<open>t2\<close>, titled
  \<open>Same\<close>. The host reports \<open>p\<close>, the new tab \<open>t3\<close>, titled \<open>Same\<close>, and \<open>t2\<close>. No
  stored tab with the title of \<open>t3\<close> is missing from the report. When the
  reconciliation reaches \<open>t3\<close>,
  \<open>currentTabIds\<close> does not hold \<open>t2\<close> yet: the stored \<open>t2\<close> is relabelled \<open>t3\<close>, and
  the new tab ends as a child of \<open>p\<close>. The handler \<open>onTabAdded\<close> makes \<open>t3\<close> a root of
  the same store.
\<close>

theorem new_tab_relabelled_under_parent:
  "validTree statePT \<and> \<not> mapHas (tabs statePT) ''t3''
   \<and> findExistingNode (tabs statePT) (getTabTitle (\<lambda>_. None) reportedT3)
        (map zt_id [reportedP, reportedT3, tabSame2]) = None
   \<and> syncWithZoteroTabs 3 (\<lambda>_. None) noPrefs (Some [reportedP, reportedT3, tabSame2])
        (Some ''p'') statePT
      = Some syncedPT
   \<and> map_of (tabs syncedPT) ''t3'' = Some (nodeT2\<lparr>id_n := ''t3'', level := 0\<rparr>)
   \<and> parentId (nodeT2\<lparr>id_n := ''t3'', level := 0\<rparr>) = Some ''p''
   \<and> map_of (tabs syncedPT) ''p'' = Some (nodeP\<lparr>childIds := [''t3''], selected := True\<rparr>)
   \<and> onTabAdded statePT [reportedP, reportedT3, tabSame2] [''t3'']
      = statePT\<lparr>tabs := tabs statePT @ [(''t3'', newNode ''t3'' None ''Same'' ''reader'' Tab)],
                roots := [''p'', ''t3'']\<rparr>"
proof -
  have 1: "syncWithZoteroTabs 3 (\<lambda>_. None) noPrefs (Some [reportedP, reportedT3, tabSame2])
             (Some ''p'') statePT
           = Some syncedPT"
    unfolding syncWithZoteroTabs_def option.case first_pass_PT prod.case
    by (simp add: rest_eval syncedPT_def nodeP_def nodeT2_def)
  have 2: "findExistingNode (tabs statePT) (getTabTitle (\<lambda>_. None) reportedT3)
             (map zt_id [reportedP, reportedT3, tabSame2]) = None"
    by (simp add: findExistingNode_def reportedPT_fields tabSame_fields statePT_def nodeP_def
          nodeT2_def newNode_def)
  have 3: "onTabAdded statePT [reportedP, reportedT3, tabSame2] [''t3'']
      = statePT\<lparr>tabs := tabs statePT @ [(''t3'', newNode ''t3'' None ''Same'' ''reader'' Tab)],
                roots := [''p'', ''t3'']\<rparr>"
    by (simp add: onTabAdded_def onTabAdded_for_def reportedPT_fields tabSame_fields statePT_def
          addTab_def insertNode_def newNode_def truthyId_def truthy_def orElse_def mapHas_def
          mapSet_def emptyState_def nodeP_def nodeT2_def)
  have 4: "validTree statePT"
    by (simp add: validTree_def statePT_def nodeP_def nodeT2_def newNode_def ownIds_def
          mapHas_def nodeAt_def emptyState_def)
  show ?thesis
    using 1 2 3 4
    by (simp add: statePT_def syncedPT_def nodeP_def nodeT2_def newNode_def mapHas_def)
qed

subsection \<open>A collapsed node that a reconciliation replaces\<close>

lemma reportedK_fields:
  "zt_id reportedK = ''k''" "zt_type reportedK = ''reader''"
  "getTabTitle items reportedK = ''K''"
  by (simp_all add: reportedK_def getTabTitle_def truthy_def isSpace_def isSpace2_def
        isSpace3_def)

lemma stateT1K_eq:
  "stateT1K = emptyState\<lparr>tabs := [(''t1'', (sameNode ''t1'' False)
                                             \<lparr>childIds := [''k''], collapsed := True\<rparr>),
                                   (''t2'', sameNode ''t2'' False),
                                   (''k'', (newNode ''k'' (Some ''t1'') ''K'' ''reader'' Tab)
                                             \<lparr>level := 1\<rparr>)],
                          roots := [''t1'', ''t2''], collapsedSet := [''t1'']\<rparr>"
  by (simp add: stateT1K_def toggleCollapsed_def collapseNode_def addTab_def insertNode_def
        Let_def newNode_def sameNode_def truthyId_def truthy_def idStr_def mapHas_def mapSet_def
        mapModify_def levelOf_def setAdd_def emptyState_def noPrefs_def)

lemma first_pass_T1K:
  "foldl (syncTab items (Some ''t1'')) (stateT1K, [], []) [tabSame1, tabSame2, reportedK]
     = (emptyState\<lparr>tabs := [(''t1'', sameNode ''t1'' True),
                             (''k'', (newNode ''k'' (Some ''t1'') ''K'' ''reader'' Tab)
                                       \<lparr>level := 1\<rparr>),
                             (''t2'', sameNode ''t2'' False)],
                     roots := [''t1'', ''t2'', ''t2''], collapsedSet := [''t1'']\<rparr>,
        [''t1'', ''t2'', ''k''], [(''t2'', ''t1'')])"
  unfolding stateT1K_eq
  by (simp add: pass_eval reportedK_fields title_same1 title_same2 tabSame_fields sameNode_def)

text \<open>
  Claim C7. In the empty store the tabs \<open>t1\<close> and \<open>t2\<close>, both titled \<open>Same\<close>, and the tab
  \<open>k\<close> under \<open>t1\<close> are created, and \<open>toggleCollapsed\<close> collapses \<open>t1\<close>: the flag of
  \<open>t1\<close> is set and the collapsed set holds \<open>t1\<close>. The host reports \<open>t1\<close>, \<open>t2\<close> and
  \<open>k\<close>. The reconciliation relabels the stored \<open>t2\<close> to \<open>t1\<close> and stores it over the
  collapsed node; the collapsed set is left as it is. In the state it returns, the node
  \<open>t1\<close> is not collapsed and the collapsed set holds \<open>t1\<close>.
\<close>

theorem sync_breaks_collapsed_lockstep:
  "lockstep stateT1K
   \<and> nodeAt (tabs stateT1K) ''t1'' collapsed \<and> collapsedSet stateT1K = [''t1'']
   \<and> syncWithZoteroTabs 3 (\<lambda>_. None) noPrefs (Some [tabSame1, tabSame2, reportedK])
        (Some ''t1'') stateT1K
      = Some syncedT1K
   \<and> nodeAt (tabs syncedT1K) ''t1'' (\<lambda>n. \<not> collapsed n)
   \<and> collapsedSet syncedT1K = [''t1'']
   \<and> \<not> lockstep syncedT1K"
proof -
  have "syncWithZoteroTabs 3 (\<lambda>_. None) noPrefs (Some [tabSame1, tabSame2, reportedK])
          (Some ''t1'') stateT1K
        = Some syncedT1K"
    unfolding syncWithZoteroTabs_def option.case first_pass_T1K prod.case
    by (simp add: rest_eval syncedT1K_def sameNode_def)
  then show ?thesis
    by (simp add: stateT1K_eq syncedT1K_def lockstep_def nodeAt_def sameNode_def newNode_def)
qed

subsection \<open>Collapsing keeps a tree valid\<close>








subsection \<open>Visible nodes\<close>




subsection \<open>The tree order and the visible nodes\<close>









end
